theory Spec2Isabelle
  imports Complex_Main "HOL-Library.Multiset"
begin

section \<open>Data model\<close>

text \<open>
  Python floats are modelled as real numbers: simulation times, durations, volumes and
  distances are \<open>real\<close>, arithmetic is exact, and there is no NaN or infinity. Python
  exceptions are values of the type \<open>error\<close>.
\<close>

datatype error = ZeroDivisionError | TypeError | ValueError | IndexError | AttributeError

text \<open>\<open>des_framework.EventType\<close>.\<close>

datatype EventType =
    DREDGING_START | DREDGING_COMPLETE
  | MOVE_TO_DA_START | MOVE_TO_DA_COMPLETE
  | DUMPING_START | DUMPING_COMPLETE
  | MOVE_BACK_START | MOVE_BACK_COMPLETE

text \<open>
  The values stored in the \<open>data\<close> dictionary of an event and in the extra keys of a
  duration sample: a float, an int (a segment index) or \<open>None\<close>.
\<close>

datatype pyval = PFloat real | PInt int | PNone

text \<open>\<open>des_framework.Event\<close>; the dictionary \<open>data\<close> is an association list.\<close>

record Event =
  time :: real
  event_type :: EventType
  entity_id :: string
  data :: "(string \<times> pyval) list"

text \<open>\<open>Event.__lt__\<close>: events compare by time only.\<close>

definition event_lt :: "Event \<Rightarrow> Event \<Rightarrow> bool" where
  "event_lt a b = (time a < time b)"

text \<open>\<open>dict.get(key, default)\<close>.\<close>

definition dict_get :: "(string \<times> pyval) list \<Rightarrow> string \<Rightarrow> pyval \<Rightarrow> pyval" where
  "dict_get d k dflt = (case map_of d k of None \<Rightarrow> dflt | Some v \<Rightarrow> v)"

text \<open>\<open>float(x)\<close>, and the use of a value as a number in \<open>+=\<close>: \<open>None\<close> raises TypeError.\<close>

definition py_float :: "pyval \<Rightarrow> error + real" where
  "py_float v = (case v of PFloat r \<Rightarrow> Inr r | PInt i \<Rightarrow> Inr (real_of_int i) | PNone \<Rightarrow> Inl TypeError)"

text \<open>Float division: a zero divisor raises ZeroDivisionError.\<close>

definition fdiv :: "real \<Rightarrow> real \<Rightarrow> error + real" where
  "fdiv a b = (if b = 0 then Inl ZeroDivisionError else Inr (a / b))"

text \<open>Sequencing of computations that may raise.\<close>

definition bind_err :: "error + 'a \<Rightarrow> ('a \<Rightarrow> error + 'b) \<Rightarrow> error + 'b" where
  "bind_err m f = (case m of Inl e \<Rightarrow> Inl e | Inr x \<Rightarrow> f x)"

section \<open>The priority queue: the standard library's heapq on a list\<close>

text \<open>
  \<open>heapq._siftdown(heap, startpos, pos)\<close>: the item at \<open>pos\<close> moves towards the root while
  it is smaller than its parent. The loop carries the list and the position; the list
  still holds a stale copy at \<open>pos\<close>, overwritten with \<open>newitem\<close> on exit.
\<close>

function siftdown_loop :: "Event list \<Rightarrow> Event \<Rightarrow> nat \<Rightarrow> nat \<Rightarrow> Event list" where
  "siftdown_loop heap newitem startpos pos =
     (if pos > startpos then
        (let parentpos = (pos - 1) div 2;
             parent = heap ! parentpos
         in if event_lt newitem parent
            then siftdown_loop (heap[pos := parent]) newitem startpos parentpos
            else heap[pos := newitem])
      else heap[pos := newitem])"
  by pat_completeness auto
termination
  by (relation "measure (\<lambda>(heap, newitem, startpos, pos). pos)") auto

declare siftdown_loop.simps [simp del]

definition siftdown :: "Event list \<Rightarrow> nat \<Rightarrow> nat \<Rightarrow> Event list" where
  "siftdown heap startpos pos = siftdown_loop heap (heap ! pos) startpos pos"

text \<open>
  \<open>heapq._siftup(heap, pos)\<close>: the smaller child moves up until a leaf is reached (the
  right child when it is not larger than the left one), then the item is put at the leaf
  and sifted down towards the root.
\<close>

function siftup_loop :: "Event list \<Rightarrow> nat \<Rightarrow> Event list \<times> nat" where
  "siftup_loop heap pos =
     (let endpos = length heap; childpos = 2 * pos + 1
      in if childpos < endpos then
           (let rightpos = childpos + 1;
                childpos' = (if rightpos < endpos \<and> \<not> event_lt (heap ! childpos) (heap ! rightpos)
                             then rightpos else childpos)
            in siftup_loop (heap[pos := heap ! childpos']) childpos')
         else (heap, pos))"
  by pat_completeness auto
termination
  by (relation "measure (\<lambda>(heap, pos). length heap - pos)") (auto split: if_splits)

declare siftup_loop.simps [simp del]

definition siftup :: "Event list \<Rightarrow> nat \<Rightarrow> Event list" where
  "siftup heap pos =
     (let newitem = heap ! pos;
          (heap', pos') = siftup_loop heap pos
      in siftdown (heap'[pos' := newitem]) pos pos')"

text \<open>\<open>heapq.heappush(heap, item)\<close>.\<close>

definition heappush :: "Event list \<Rightarrow> Event \<Rightarrow> Event list" where
  "heappush heap item = siftdown (heap @ [item]) 0 (length heap)"

text \<open>\<open>heapq.heappop(heap)\<close>: \<open>heap.pop()\<close> raises IndexError on an empty list.\<close>

definition heappop :: "Event list \<Rightarrow> error + (Event \<times> Event list)" where
  "heappop heap =
     (if heap = [] then Inl IndexError
      else (let lastelt = last heap; heap' = butlast heap
            in if heap' \<noteq> [] then Inr (heap' ! 0, siftup (heap'[0 := lastelt]) 0)
               else Inr (lastelt, heap')))"

section \<open>The segmented channel (segments.py)\<close>

record SegmentAllocation =
  segment_index :: int
  volume_m3 :: real
  distance_to_da_nm :: real

record SegmentManager =
  segment_length_nm :: real
  remaining_m3 :: "real list"

text \<open>\<open>SegmentManager.__init__\<close>: a non-positive segment length raises ValueError.\<close>

definition SegmentManager_init :: "real list \<Rightarrow> real \<Rightarrow> error + SegmentManager" where
  "SegmentManager_init segment_volumes_m3 seg_len =
     (if seg_len \<le> 0 then Inl ValueError
      else Inr \<lparr>segment_length_nm = seg_len,
                remaining_m3 = map (\<lambda>v. max 0 v) segment_volumes_m3\<rparr>)"

definition total_remaining :: "SegmentManager \<Rightarrow> real" where
  "total_remaining m = sum_list (remaining_m3 m)"

text \<open>
  \<open>next_segment_with_work\<close>: the loop over \<open>enumerate(self.remaining_m3)\<close>, with the
  0-based index of the head of the rest of the list as an accumulator.
\<close>

fun next_from :: "nat \<Rightarrow> real list \<Rightarrow> nat option" where
  "next_from i [] = None"
| "next_from i (v # vs) = (if v > 0 then Some (i + 1) else next_from (i + 1) vs)"

definition next_segment_with_work :: "SegmentManager \<Rightarrow> nat option" where
  "next_segment_with_work m = next_from 0 (remaining_m3 m)"

text \<open>\<open>SegmentManager.allocate\<close>: the result and the manager after the call.\<close>

definition allocate :: "SegmentManager \<Rightarrow> real \<Rightarrow> SegmentAllocation option \<times> SegmentManager" where
  "allocate m requested_m3 =
     (if requested_m3 \<le> 0 then (None, m)
      else case next_segment_with_work m of
             None \<Rightarrow> (None, m)
           | Some seg_idx \<Rightarrow>
               (let remaining = remaining_m3 m ! (seg_idx - 1);
                    take_m3 = min requested_m3 remaining;
                    m' = m\<lparr>remaining_m3 := (remaining_m3 m)[seg_idx - 1 := remaining - take_m3]\<rparr>;
                    distance_nm = real (seg_idx - 1) * segment_length_nm m
                in (Some \<lparr>segment_index = int seg_idx, volume_m3 = take_m3,
                          distance_to_da_nm = distance_nm\<rparr>, m')))"

section \<open>The vessel and the engine state (tshd.py, des_framework.py)\<close>

datatype TSHDState = IDLE | DREDGING | MOVING_TO_DA | DUMPING | MOVING_BACK

record TSHDConfig =
  dredging_time :: real
  dredging_stdev_pct :: real
  speed_to_da :: real
  distance_to_da :: real
  moving_stdev_pct :: real
  dumping_time :: real
  dumping_stdev_pct :: real
  speed_back :: real
  distance_back :: real
  hopper_capacity :: real

text \<open>The defaults of the dataclass \<open>TSHDConfig\<close>.\<close>

definition TSHDConfig_default :: TSHDConfig where
  "TSHDConfig_default =
     \<lparr>dredging_time = 2, dredging_stdev_pct = 10, speed_to_da = 10, distance_to_da = 5,
      moving_stdev_pct = 15, dumping_time = 0.5, dumping_stdev_pct = 10, speed_back = 10,
      distance_back = 5, hopper_capacity = 5000\<rparr>"

text \<open>
  The entries of \<open>event_log\<close>. A \<open>Note\<close> is a dictionary with the keys time, event and
  state; its message is one of the fixed texts of tshd.py, with the number an f-string
  interpolates kept as an argument. A \<open>Sample\<close> is a recorded task duration: time, task,
  duration_h, the other keys of that dictionary (volume_m3, distance_nm, segment) as an
  association list, and state.
\<close>

datatype message =
    Starting_dredging
  | No_segment_work_remaining
  | Dredging_complete real
  | Moving_to_dumping_area
  | Arrived_at_dumping_area
  | Starting_dumping
  | Dumping_complete int
  | Moving_back_to_dredging_area
  | Arrived_back_at_dredging_area

datatype log_entry =
    Note real message TSHDState
  | Sample real string real "(string \<times> pyval) list" TSHDState

text \<open>
  The class \<open>TSHD\<close>; its attribute \<open>entity_id\<close> is the field \<open>vessel_id\<close> here (the event
  record has a field of that name). The flags \<open>_debug_logged_once\<close> only guard the debug
  side channel \<open>_debug_log\<close>, which swallows every exception and changes no state the
  simulation reads; both are left out.
\<close>

record TSHD =
  vessel_id :: string
  config :: TSHDConfig
  state :: TSHDState
  hopper_level :: real
  total_dredged :: real
  cycle_count :: int
  event_log :: "log_entry list"
  state_history :: "(real \<times> TSHDState) list"
  current_segment_index :: "int option"

definition TSHD_init :: "string \<Rightarrow> TSHDConfig \<Rightarrow> TSHD" where
  "TSHD_init eid cfg =
     \<lparr>vessel_id = eid, config = cfg, state = IDLE, hopper_level = 0, total_dredged = 0,
      cycle_count = 0, event_log = [], state_history = [], current_segment_index = None\<rparr>"

record Statistics =
  total_dredging_time :: real
  total_moving_time :: real
  total_dumping_time :: real
  dredging_cycles :: int
  events_processed :: int

text \<open>
  The class \<open>Simulation\<close>, with the attribute \<open>segment_manager\<close> a caller may attach
  (\<open>getattr(sim, "segment_manager", None)\<close>). Two fields hold what the Python keeps outside
  the object: \<open>rng_pos\<close>, the number of variates drawn so far from the process-wide
  generator of numpy, and \<open>printed\<close>, the lines written by \<open>print\<close>. The registry maps
  an id to the vessel's state; every vessel is registered under one key.
\<close>

record Simulation =
  clock :: real
  event_queue :: "Event list"
  entities :: "string \<rightharpoonup> TSHD"
  statistics :: Statistics
  running :: bool
  segment_manager :: "SegmentManager option"
  rng_pos :: nat
  printed :: "string list"

definition Simulation_init :: Simulation where
  "Simulation_init =
     \<lparr>clock = 0, event_queue = [], entities = Map.empty,
      statistics = \<lparr>total_dredging_time = 0, total_moving_time = 0, total_dumping_time = 0,
                     dredging_cycles = 0, events_processed = 0\<rparr>,
      running = False, segment_manager = None, rng_pos = 0, printed = []\<rparr>"

definition schedule_event :: "Simulation \<Rightarrow> Event \<Rightarrow> Simulation" where
  "schedule_event sim event = sim\<lparr>event_queue := heappush (event_queue sim) event\<rparr>"

text \<open>
  \<open>np.random.normal(loc, scale)\<close>: numpy raises ValueError for a negative scale and
  otherwise returns \<open>loc + scale * z\<close> for the next standard normal variate \<open>z\<close> of the
  generator. The stream of variates is the parameter \<open>z\<close> of every function that draws.
\<close>

definition np_normal :: "(nat \<Rightarrow> real) \<Rightarrow> real \<Rightarrow> real \<Rightarrow> Simulation \<Rightarrow> error + (real \<times> Simulation)" where
  "np_normal z loc scale sim =
     (if scale < 0 then Inl ValueError
      else Inr (loc + scale * z (rng_pos sim), sim\<lparr>rng_pos := rng_pos sim + 1\<rparr>))"

definition log_append :: "TSHD \<Rightarrow> log_entry \<Rightarrow> TSHD" where
  "log_append self entry = self\<lparr>event_log := event_log self @ [entry]\<rparr>"

definition history_append :: "TSHD \<Rightarrow> real \<Rightarrow> TSHD" where
  "history_append self t = self\<lparr>state_history := state_history self @ [(t, state self)]\<rparr>"

definition pyval_of_index :: "int option \<Rightarrow> pyval" where
  "pyval_of_index i = (case i of None \<Rightarrow> PNone | Some k \<Rightarrow> PInt k)"

subsection \<open>The event handlers of the vessel\<close>

text \<open>
  Each handler takes the event, the vessel and the engine and returns both updated, or
  the exception it raises. \<open>_start_dredging\<close> is written in three parts:
  \<open>start_dredging_sample\<close> is its second half, from the sampling of the duration to the
  scheduling of the completion; \<open>go_idle\<close> is its early return when nothing is allocated;
  \<open>start_dredging\<close> is the function itself. With a segment manager attached the volume,
  the distance and the segment come from \<open>allocate\<close>.
\<close>

definition start_dredging_sample ::
  "(nat \<Rightarrow> real) \<Rightarrow> TSHD \<Rightarrow> Simulation \<Rightarrow> real \<Rightarrow> real \<Rightarrow> int option \<Rightarrow> error + (TSHD \<times> Simulation)" where
  "start_dredging_sample z self0 sim0 allocated_volume_m3 distance_nm seg_idx =
     (let cfg = config self0
      in bind_err (fdiv allocated_volume_m3 (hopper_capacity cfg)) (\<lambda>ratio.
         let mean_time = dredging_time cfg * ratio;
             stdev = mean_time * (dredging_stdev_pct cfg / 100)
         in bind_err (np_normal z mean_time stdev sim0) (\<lambda>(sample, sim1).
            let actual_dredging_time = max 0.1 sample;
                self1 = log_append self0
                          (Sample (clock sim1) ''dredging'' actual_dredging_time
                             [(''volume_m3'', PFloat allocated_volume_m3),
                              (''segment'', pyval_of_index seg_idx)]
                             (state self0));
                completion_time = clock sim1 + actual_dredging_time
            in Inr (self1,
                    schedule_event sim1
                      \<lparr>time = completion_time, event_type = DREDGING_COMPLETE,
                       entity_id = vessel_id self1,
                       data = [(''actual_dredging_time'', PFloat actual_dredging_time),
                               (''allocated_volume_m3'', PFloat allocated_volume_m3),
                               (''distance_to_da_nm'', PFloat distance_nm),
                               (''segment_index'', pyval_of_index seg_idx)]\<rparr>))))"

definition go_idle :: "TSHD \<Rightarrow> Simulation \<Rightarrow> error + (TSHD \<times> Simulation)" where
  "go_idle self0 sim0 =
     (let self1 = self0\<lparr>state := IDLE\<rparr>
      in Inr (log_append self1 (Note (clock sim0) No_segment_work_remaining (state self1)), sim0))"

definition start_dredging :: "(nat \<Rightarrow> real) \<Rightarrow> Event \<Rightarrow> TSHD \<Rightarrow> Simulation \<Rightarrow> error + (TSHD \<times> Simulation)" where
  "start_dredging z event self0 sim0 =
     (let self1 = self0\<lparr>state := DREDGING\<rparr>;
          self2 = log_append self1 (Note (clock sim0) Starting_dredging (state self1));
          self3 = history_append self2 (clock sim0);
          cfg = config self3
      in case segment_manager sim0 of
           None \<Rightarrow>
             start_dredging_sample z self3 sim0 (hopper_capacity cfg) (distance_to_da cfg) None
         | Some seg_mgr \<Rightarrow>
             (let (alloc_opt, seg_mgr') = allocate seg_mgr (hopper_capacity cfg);
                  sim1 = sim0\<lparr>segment_manager := Some seg_mgr'\<rparr>
              in case alloc_opt of
                   None \<Rightarrow> go_idle self3 sim1
                 | Some alloc \<Rightarrow>
                     if volume_m3 alloc \<le> 0 then go_idle self3 sim1
                     else start_dredging_sample z
                            (self3\<lparr>current_segment_index := Some (segment_index alloc)\<rparr>) sim1
                            (volume_m3 alloc) (distance_to_da_nm alloc)
                            (Some (segment_index alloc))))"

text \<open>\<open>_complete_dredging\<close>.\<close>

definition complete_dredging :: "(nat \<Rightarrow> real) \<Rightarrow> Event \<Rightarrow> TSHD \<Rightarrow> Simulation \<Rightarrow> error + (TSHD \<times> Simulation)" where
  "complete_dredging z event self0 sim0 =
     (let cfg = config self0
      in bind_err (py_float (dict_get (data event) ''allocated_volume_m3'' (PFloat (hopper_capacity cfg)))) (\<lambda>loaded_m3.
         let self1 = self0\<lparr>hopper_level := loaded_m3\<rparr>;
             self2 = self1\<lparr>total_dredged := total_dredged self1 + loaded_m3\<rparr>
         in bind_err (py_float (dict_get (data event) ''actual_dredging_time'' (PFloat (dredging_time cfg)))) (\<lambda>actual_dredging_time.
         let sim1 = sim0\<lparr>statistics := (statistics sim0)
                      \<lparr>total_dredging_time := total_dredging_time (statistics sim0) + actual_dredging_time\<rparr>\<rparr>;
             self3 = log_append self2 (Note (clock sim1) (Dredging_complete (hopper_level self2)) (state self2));
             self4 = self3\<lparr>state := MOVING_TO_DA\<rparr>
         in bind_err (py_float (dict_get (data event) ''distance_to_da_nm'' (PFloat (distance_to_da cfg)))) (\<lambda>distance_nm.
            bind_err (fdiv distance_nm (speed_to_da cfg)) (\<lambda>mean_travel_time.
            let stdev = mean_travel_time * (moving_stdev_pct cfg / 100)
            in bind_err (np_normal z mean_travel_time stdev sim1) (\<lambda>(sample, sim2).
               let travel_time = max 0.01 sample;
                   self5 = log_append self4
                             (Sample (clock sim2) ''moving_to_da'' travel_time
                                [(''distance_nm'', PFloat distance_nm),
                                 (''segment'', dict_get (data event) ''segment_index'' PNone)]
                                (state self4));
                   sim3 = schedule_event sim2
                            \<lparr>time = clock sim2, event_type = MOVE_TO_DA_START,
                             entity_id = vessel_id self5, data = []\<rparr>;
                   sim4 = schedule_event sim3
                            \<lparr>time = clock sim3 + travel_time, event_type = MOVE_TO_DA_COMPLETE,
                             entity_id = vessel_id self5,
                             data = [(''actual_travel_time'', PFloat travel_time),
                                     (''distance_to_da_nm'', PFloat distance_nm)]\<rparr>
               in Inr (self5, sim4)))))))"

text \<open>\<open>_start_move_to_da\<close>.\<close>

definition start_move_to_da :: "Event \<Rightarrow> TSHD \<Rightarrow> Simulation \<Rightarrow> error + (TSHD \<times> Simulation)" where
  "start_move_to_da event self0 sim0 =
     (let self1 = self0\<lparr>state := MOVING_TO_DA\<rparr>;
          self2 = log_append self1 (Note (clock sim0) Moving_to_dumping_area (state self1));
          self3 = history_append self2 (clock sim0)
      in Inr (self3, sim0))"

text \<open>
  \<open>_complete_move_to_da\<close>. The default of \<open>event.data.get('actual_travel_time', ...)\<close> is
  evaluated before the lookup, so its division is always carried out.
\<close>

definition complete_move_to_da :: "(nat \<Rightarrow> real) \<Rightarrow> Event \<Rightarrow> TSHD \<Rightarrow> Simulation \<Rightarrow> error + (TSHD \<times> Simulation)" where
  "complete_move_to_da z event self0 sim0 =
     (let cfg = config self0
      in bind_err (py_float (dict_get (data event) ''distance_to_da_nm'' (PFloat (distance_to_da cfg)))) (\<lambda>distance_nm.
         bind_err (fdiv distance_nm (speed_to_da cfg)) (\<lambda>dflt.
         bind_err (py_float (dict_get (data event) ''actual_travel_time'' (PFloat dflt))) (\<lambda>travel_time.
         let sim1 = sim0\<lparr>statistics := (statistics sim0)
                      \<lparr>total_moving_time := total_moving_time (statistics sim0) + travel_time\<rparr>\<rparr>;
             self1 = log_append self0 (Note (clock sim1) Arrived_at_dumping_area (state self0));
             self2 = self1\<lparr>state := DUMPING\<rparr>;
             self3 = history_append self2 (clock sim1);
             mean_time = dumping_time cfg;
             stdev = mean_time * (dumping_stdev_pct cfg / 100)
         in bind_err (np_normal z mean_time stdev sim1) (\<lambda>(sample, sim2).
            let actual_dumping_time = max 0.05 sample;
                self4 = log_append self3
                          (Sample (clock sim2) ''dumping'' actual_dumping_time [] (state self3));
                sim3 = schedule_event sim2
                         \<lparr>time = clock sim2, event_type = DUMPING_START,
                          entity_id = vessel_id self4, data = []\<rparr>;
                sim4 = schedule_event sim3
                         \<lparr>time = clock sim3 + actual_dumping_time, event_type = DUMPING_COMPLETE,
                          entity_id = vessel_id self4,
                          data = [(''actual_dumping_time'', PFloat actual_dumping_time)]\<rparr>
            in Inr (self4, sim4))))))"

text \<open>\<open>_start_dumping\<close>.\<close>

definition start_dumping :: "Event \<Rightarrow> TSHD \<Rightarrow> Simulation \<Rightarrow> error + (TSHD \<times> Simulation)" where
  "start_dumping event self0 sim0 =
     (let self1 = self0\<lparr>state := DUMPING\<rparr>;
          self2 = log_append self1 (Note (clock sim0) Starting_dumping (state self1))
      in Inr (self2, sim0))"

text \<open>\<open>_complete_dumping\<close>.\<close>

definition complete_dumping :: "(nat \<Rightarrow> real) \<Rightarrow> Event \<Rightarrow> TSHD \<Rightarrow> Simulation \<Rightarrow> error + (TSHD \<times> Simulation)" where
  "complete_dumping z event self0 sim0 =
     (let cfg = config self0;
          self1 = self0\<lparr>hopper_level := 0\<rparr>
      in bind_err (py_float (dict_get (data event) ''actual_dumping_time'' (PFloat (dumping_time cfg)))) (\<lambda>actual_dumping_time.
         let sim1 = sim0\<lparr>statistics := (statistics sim0)
                      \<lparr>total_dumping_time := total_dumping_time (statistics sim0) + actual_dumping_time\<rparr>\<rparr>;
             self2 = self1\<lparr>cycle_count := cycle_count self1 + 1\<rparr>;
             sim2 = sim1\<lparr>statistics := (statistics sim1)
                      \<lparr>dredging_cycles := dredging_cycles (statistics sim1) + 1\<rparr>\<rparr>;
             self3 = log_append self2 (Note (clock sim2) (Dumping_complete (cycle_count self2)) (state self2));
             self4 = self3\<lparr>state := MOVING_BACK\<rparr>;
             self5 = history_append self4 (clock sim2)
         in bind_err (py_float (dict_get (data event) ''distance_to_da_nm'' (PFloat (distance_back cfg)))) (\<lambda>distance_nm.
            bind_err (fdiv distance_nm (speed_back cfg)) (\<lambda>mean_travel_time.
            let stdev = mean_travel_time * (moving_stdev_pct cfg / 100)
            in bind_err (np_normal z mean_travel_time stdev sim2) (\<lambda>(sample, sim3).
               let travel_time = max 0.01 sample;
                   self6 = log_append self5
                             (Sample (clock sim3) ''moving_back'' travel_time
                                [(''distance_nm'', PFloat distance_nm)] (state self5));
                   sim4 = schedule_event sim3
                            \<lparr>time = clock sim3, event_type = MOVE_BACK_START,
                             entity_id = vessel_id self6, data = []\<rparr>;
                   sim5 = schedule_event sim4
                            \<lparr>time = clock sim4 + travel_time, event_type = MOVE_BACK_COMPLETE,
                             entity_id = vessel_id self6,
                             data = [(''actual_travel_time'', PFloat travel_time),
                                     (''distance_to_da_nm'', PFloat distance_nm)]\<rparr>
               in Inr (self6, sim5))))))"

text \<open>\<open>_start_move_back\<close>.\<close>

definition start_move_back :: "Event \<Rightarrow> TSHD \<Rightarrow> Simulation \<Rightarrow> error + (TSHD \<times> Simulation)" where
  "start_move_back event self0 sim0 =
     (let self1 = self0\<lparr>state := MOVING_BACK\<rparr>;
          self2 = log_append self1 (Note (clock sim0) Moving_back_to_dredging_area (state self1))
      in Inr (self2, sim0))"

text \<open>\<open>_complete_move_back\<close>; the default of the lookup is again evaluated first.\<close>

definition complete_move_back :: "Event \<Rightarrow> TSHD \<Rightarrow> Simulation \<Rightarrow> error + (TSHD \<times> Simulation)" where
  "complete_move_back event self0 sim0 =
     (let cfg = config self0
      in bind_err (fdiv (distance_back cfg) (speed_back cfg)) (\<lambda>dflt.
         bind_err (py_float (dict_get (data event) ''actual_travel_time'' (PFloat dflt))) (\<lambda>travel_time.
         let sim1 = sim0\<lparr>statistics := (statistics sim0)
                      \<lparr>total_moving_time := total_moving_time (statistics sim0) + travel_time\<rparr>\<rparr>;
             self1 = log_append self0 (Note (clock sim1) Arrived_back_at_dredging_area (state self0));
             self2 = self1\<lparr>state := DREDGING\<rparr>;
             self3 = history_append self2 (clock sim1);
             sim2 = schedule_event sim1
                      \<lparr>time = clock sim1, event_type = DREDGING_START,
                       entity_id = vessel_id self3, data = []\<rparr>
         in Inr (self3, sim2))))"

text \<open>\<open>TSHD.handle_event\<close>: the if/elif chain over the event type.\<close>

definition handle_event :: "(nat \<Rightarrow> real) \<Rightarrow> Event \<Rightarrow> TSHD \<Rightarrow> Simulation \<Rightarrow> error + (TSHD \<times> Simulation)" where
  "handle_event z event self0 sim0 =
     (case event_type event of
        DREDGING_START \<Rightarrow> start_dredging z event self0 sim0
      | DREDGING_COMPLETE \<Rightarrow> complete_dredging z event self0 sim0
      | MOVE_TO_DA_START \<Rightarrow> start_move_to_da event self0 sim0
      | MOVE_TO_DA_COMPLETE \<Rightarrow> complete_move_to_da z event self0 sim0
      | DUMPING_START \<Rightarrow> start_dumping event self0 sim0
      | DUMPING_COMPLETE \<Rightarrow> complete_dumping z event self0 sim0
      | MOVE_BACK_START \<Rightarrow> start_move_back event self0 sim0
      | MOVE_BACK_COMPLETE \<Rightarrow> complete_move_back event self0 sim0)"

text \<open>\<open>TSHD.start_work\<close>.\<close>

definition start_work :: "TSHD \<Rightarrow> Simulation \<Rightarrow> Simulation" where
  "start_work self0 sim0 =
     schedule_event sim0
       \<lparr>time = 0, event_type = DREDGING_START, entity_id = vessel_id self0, data = []\<rparr>"

section \<open>The engine (des_framework.py)\<close>

text \<open>\<open>Simulation.get_next_event\<close>.\<close>

definition get_next_event :: "Simulation \<Rightarrow> error + (Event option \<times> Simulation)" where
  "get_next_event sim =
     (if event_queue sim \<noteq> [] then
        bind_err (heappop (event_queue sim)) (\<lambda>(event, q). Inr (Some event, sim\<lparr>event_queue := q\<rparr>))
      else Inr (None, sim))"

text \<open>The truth value of \<open>end_time\<close> in \<open>if end_time and ...\<close>: \<open>None\<close> and \<open>0.0\<close> are false.\<close>

definition truthy :: "real option \<Rightarrow> bool" where
  "truthy end_time = (case end_time of None \<Rightarrow> False | Some t \<Rightarrow> t \<noteq> 0)"

text \<open>\<open>str(event.event_type)\<close> and the warning printed for an unknown entity.\<close>

definition EventType_str :: "EventType \<Rightarrow> string" where
  "EventType_str t =
     (case t of
        DREDGING_START \<Rightarrow> ''EventType.DREDGING_START''
      | DREDGING_COMPLETE \<Rightarrow> ''EventType.DREDGING_COMPLETE''
      | MOVE_TO_DA_START \<Rightarrow> ''EventType.MOVE_TO_DA_START''
      | MOVE_TO_DA_COMPLETE \<Rightarrow> ''EventType.MOVE_TO_DA_COMPLETE''
      | DUMPING_START \<Rightarrow> ''EventType.DUMPING_START''
      | DUMPING_COMPLETE \<Rightarrow> ''EventType.DUMPING_COMPLETE''
      | MOVE_BACK_START \<Rightarrow> ''EventType.MOVE_BACK_START''
      | MOVE_BACK_COMPLETE \<Rightarrow> ''EventType.MOVE_BACK_COMPLETE'')"

definition warning :: "Event \<Rightarrow> string" where
  "warning event =
     ''Warning: Entity '' @ entity_id event @ '' not found for event '' @ EventType_str (event_type event)"

text \<open>
  One pass through the body of the \<open>while\<close> loop of \<open>Simulation.run\<close>: the loop goes on
  with a new state, leaves through \<open>break\<close>, or an exception ends the call.
\<close>

datatype outcome = Continue Simulation | Break Simulation | Raise error

definition run_body :: "(nat \<Rightarrow> real) \<Rightarrow> real option \<Rightarrow> Simulation \<Rightarrow> outcome" where
  "run_body z end_time sim0 =
     (case get_next_event sim0 of
        Inl e \<Rightarrow> Raise e
      | Inr (None, sim1) \<Rightarrow> Raise AttributeError
      | Inr (Some event, sim1) \<Rightarrow>
          if truthy end_time \<and> time event > the end_time then
            Break ((schedule_event sim1 event)\<lparr>clock := the end_time\<rparr>)
          else
            (let sim2 = sim1\<lparr>clock := time event\<rparr>;
                 sim3 = sim2\<lparr>statistics := (statistics sim2)
                          \<lparr>events_processed := events_processed (statistics sim2) + 1\<rparr>\<rparr>
             in case entities sim3 (entity_id event) of
                  Some entity \<Rightarrow>
                    (case handle_event z event entity sim3 of
                       Inl e \<Rightarrow> Raise e
                     | Inr (entity', sim4) \<Rightarrow>
                         Continue (sim4\<lparr>entities := (entities sim4)(entity_id event \<mapsto> entity')\<rparr>))
                | None \<Rightarrow> Continue (sim3\<lparr>printed := printed sim3 @ [warning event]\<rparr>)))"

text \<open>
  The loop \<open>while self.event_queue and self.running\<close>. It need not end, so it takes fuel:
  \<open>None\<close> means that the fuel ran out before the loop was left.
\<close>

fun run_loop :: "nat \<Rightarrow> (nat \<Rightarrow> real) \<Rightarrow> real option \<Rightarrow> Simulation \<Rightarrow> (error + Simulation) option" where
  "run_loop 0 z end_time sim = None"
| "run_loop (Suc n) z end_time sim =
     (if event_queue sim \<noteq> [] \<and> running sim then
        (case run_body z end_time sim of
           Continue sim' \<Rightarrow> run_loop n z end_time sim'
         | Break sim' \<Rightarrow> Some (Inr sim')
         | Raise e \<Rightarrow> Some (Inl e))
      else Some (Inr sim))"

text \<open>\<open>Simulation.run(end_time)\<close>; an exception leaves before \<open>self.running = False\<close>.\<close>

definition run :: "nat \<Rightarrow> (nat \<Rightarrow> real) \<Rightarrow> real option \<Rightarrow> Simulation \<Rightarrow> (error + Simulation) option" where
  "run fuel z end_time sim =
     (case run_loop fuel z end_time (sim\<lparr>running := True\<rparr>) of
        None \<Rightarrow> None
      | Some (Inl e) \<Rightarrow> Some (Inl e)
      | Some (Inr sim') \<Rightarrow> Some (Inr (sim'\<lparr>running := False\<rparr>)))"

section \<open>Definitions used in the statements\<close>

text \<open>Scenario B of the specification: volumes 1000, 0, 500 and a segment length of 2.\<close>

definition channel_B :: SegmentManager where
  "channel_B = \<lparr>segment_length_nm = 2, remaining_m3 = [1000, 0, 500]\<rparr>"

text \<open>
  The heap invariant of heapq: no item is earlier than its parent, the parent of index
  \<open>i\<close> being \<open>(i - 1) div 2\<close>.
\<close>

definition heap_ok :: "Event list \<Rightarrow> bool" where
  "heap_ok h = list_all (\<lambda>i. time (h ! ((i - 1) div 2)) \<le> time (h ! i)) [1..<length h]"

text \<open>
  An engine with no entity registered and one event queued for time 1, owned by the
  unregistered id \<open>ghost\<close>.
\<close>

definition ghost_event :: Event where
  "ghost_event = \<lparr>time = 1, event_type = DREDGING_START, entity_id = ''ghost'', data = []\<rparr>"

definition sim_ghost :: Simulation where
  "sim_ghost = schedule_event Simulation_init ghost_event"

text \<open>
  The floor of each sampled task duration: the first argument of \<open>max\<close> in the handler
  that samples it.
\<close>

definition task_floor :: "string \<Rightarrow> real" where
  "task_floor task =
     (if task = ''dredging'' then 0.1
      else if task = ''moving_to_da'' then 0.01
      else if task = ''dumping'' then 0.05
      else if task = ''moving_back'' then 0.01
      else 0)"

definition sample_above_floor :: "log_entry \<Rightarrow> bool" where
  "sample_above_floor entry =
     (case entry of Note t m st \<Rightarrow> True | Sample t task d extra st \<Rightarrow> task_floor task < d)"

definition sample_at_least_floor :: "log_entry \<Rightarrow> bool" where
  "sample_at_least_floor entry =
     (case entry of Note t m st \<Rightarrow> True | Sample t task d extra st \<Rightarrow> task_floor task \<le> d)"

text \<open>Every vessel of the registry has only samples at or above their floors in its log.\<close>

definition logs_at_least_floor :: "Simulation \<Rightarrow> bool" where
  "logs_at_least_floor sim =
     (\<forall>v \<in> ran (entities sim). list_all sample_at_least_floor (event_log v))"

text \<open>A vessel with the default configuration, registered under its id and started.\<close>

definition vessel_A :: TSHD where
  "vessel_A = TSHD_init ''A'' TSHDConfig_default"

definition sim_A :: Simulation where
  "sim_A = start_work vessel_A (Simulation_init\<lparr>entities := [''A'' \<mapsto> vessel_A]\<rparr>)"

text \<open>
  The engine state in which \<open>run\<close> calls the handler of a popped event: the event is off
  the queue, the clock is at its time, and it has been counted.
\<close>

definition after_pop :: "Simulation \<Rightarrow> Event \<Rightarrow> Event list \<Rightarrow> Simulation" where
  "after_pop sim event q =
     sim\<lparr>event_queue := q, clock := time event,
         statistics := (statistics sim)
           \<lparr>events_processed := events_processed (statistics sim) + 1\<rparr>\<rparr>"

text \<open>
  The default vessel on a channel whose only work is in segment 3, two miles per segment:
  the allocator sends it 4 miles out, the configured return distance is 5 miles.
\<close>

definition sim_far :: Simulation where
  "sim_far = sim_A\<lparr>segment_manager := Some \<lparr>segment_length_nm = 2, remaining_m3 = [0, 0, 5000]\<rparr>\<rparr>"

text \<open>The log of a vessel in the state a run returns (empty when there is none).\<close>

definition log_after :: "(error + Simulation) option \<Rightarrow> string \<Rightarrow> log_entry list" where
  "log_after r eid =
     (case r of
        Some (Inr sim) \<Rightarrow> (case entities sim eid of Some v \<Rightarrow> event_log v | None \<Rightarrow> [])
      | _ \<Rightarrow> [])"

text \<open>The duration samples of a log, in order.\<close>

definition samples_of :: "log_entry list \<Rightarrow> log_entry list" where
  "samples_of entries = filter (\<lambda>e. case e of Sample t task d ex st \<Rightarrow> True | Note t m st \<Rightarrow> False) entries"

text \<open>No queued event is earlier than the clock.\<close>

definition queue_not_before_clock :: "Simulation \<Rightarrow> bool" where
  "queue_not_before_clock sim = list_all (\<lambda>e. clock sim \<le> time e) (event_queue sim)"

text \<open>
  The bound of a call of \<open>run\<close> is not below the clock (no condition when the bound is
  \<open>None\<close> or \<open>0.0\<close>, which \<open>run\<close> takes for no bound).
\<close>

definition bound_not_before_clock :: "real option \<Rightarrow> Simulation \<Rightarrow> bool" where
  "bound_not_before_clock end_time sim =
     (case end_time of None \<Rightarrow> True | Some t \<Rightarrow> t = 0 \<or> clock sim \<le> t)"

text \<open>An engine with no entity registered and one event queued for time 12.\<close>

definition sim_late :: Simulation where
  "sim_late = schedule_event Simulation_init (ghost_event\<lparr>time := 12\<rparr>)"

text \<open>
  The volume a log entry records for dredging: the key \<open>volume_m3\<close> of a sample whose
  task is dredging, and the sum over a log.
\<close>

definition sample_volume :: "log_entry \<Rightarrow> real" where
  "sample_volume entry =
     (case entry of
        Note t m st \<Rightarrow> 0
      | Sample t task d ex st \<Rightarrow>
          if task = ''dredging''
          then (case map_of ex ''volume_m3'' of
                  Some (PFloat r) \<Rightarrow> r | Some (PInt i) \<Rightarrow> real_of_int i | _ \<Rightarrow> 0)
          else 0)"

definition logged_volume :: "log_entry list \<Rightarrow> real" where
  "logged_volume entries = sum_list (map sample_volume entries)"

text \<open>
  The volume \<open>_complete_dredging\<close> adds to \<open>total_dredged\<close> when it handles an event (for a
  vessel with the given configuration), and the volume in flight for an id: the sum over
  the queued \<open>DREDGING_COMPLETE\<close> events addressed to it.
\<close>

definition event_loaded :: "TSHDConfig \<Rightarrow> Event \<Rightarrow> real" where
  "event_loaded cfg e =
     (if event_type e = DREDGING_COMPLETE
      then (case py_float (dict_get (data e) ''allocated_volume_m3'' (PFloat (hopper_capacity cfg))) of
              Inr r \<Rightarrow> r | Inl err \<Rightarrow> 0)
      else 0)"

definition pending_volume :: "TSHDConfig \<Rightarrow> string \<Rightarrow> Event list \<Rightarrow> real" where
  "pending_volume cfg eid q =
     sum_list (map (\<lambda>e. if entity_id e = eid then event_loaded cfg e else 0) q)"

text \<open>
  The accounting of dredged volume: every vessel is registered under its own id with a
  non-negative hopper capacity, the volumes of its dredging samples add up to its
  \<open>total_dredged\<close> plus its volume in flight, and no queued event will load a negative
  volume.
\<close>

definition volume_accounted :: "Simulation \<Rightarrow> bool" where
  "volume_accounted sim =
     (\<forall>eid v. entities sim eid = Some v \<longrightarrow>
        vessel_id v = eid \<and> 0 \<le> hopper_capacity (config v) \<and>
        logged_volume (event_log v) =
          total_dredged v + pending_volume (config v) eid (event_queue sim) \<and>
        (\<forall>e \<in> set (event_queue sim). entity_id e = eid \<longrightarrow> 0 \<le> event_loaded (config v) e))"

text \<open>
  The number of events the handler of an event type schedules when no segment manager is
  attached: \<open>_start_dredging\<close> and \<open>_complete_move_back\<close> schedule one, the other three
  completion handlers a start marker and a completion, the handlers of the start markers
  none.
\<close>

definition scheduled_count :: "EventType \<Rightarrow> nat" where
  "scheduled_count t =
     (case t of
        DREDGING_START \<Rightarrow> 1
      | DREDGING_COMPLETE \<Rightarrow> 2
      | MOVE_TO_DA_START \<Rightarrow> 0
      | MOVE_TO_DA_COMPLETE \<Rightarrow> 2
      | DUMPING_START \<Rightarrow> 0
      | DUMPING_COMPLETE \<Rightarrow> 2
      | MOVE_BACK_START \<Rightarrow> 0
      | MOVE_BACK_COMPLETE \<Rightarrow> 1)"

text \<open>
  No segment manager is attached, and the queue holds an event whose handler schedules,
  addressed to a vessel that is registered under its own id.
\<close>

definition vessel_at_work :: "Simulation \<Rightarrow> bool" where
  "vessel_at_work sim =
     (segment_manager sim = None \<and>
      list_ex (\<lambda>e. 0 < scheduled_count (event_type e) \<and>
                    (case entities sim (entity_id e) of
                       Some v \<Rightarrow> vessel_id v = entity_id e
                     | None \<Rightarrow> False))
              (event_queue sim))"

section \<open>The campaign driver (base-app.py)\<close>

text \<open>
  The \<open>for\<close> loop of \<open>run_simulation_streamlit\<close> over the fleet: the mean cycle time of each
  entry (its two divisions can raise), a new vessel registered under its label and
  started. The list \<open>dredgers\<close> holds the labels in order. (\<open>sim.run_id\<close> only labels the
  debug side channel and is left out.)
\<close>

fun fleet_loop ::
  "(string \<times> TSHDConfig) list \<Rightarrow> Simulation \<Rightarrow> string list \<Rightarrow> real list \<Rightarrow>
   error + (Simulation \<times> string list \<times> real list)" where
  "fleet_loop [] sim dredgers cycle_times = Inr (sim, dredgers, cycle_times)"
| "fleet_loop ((type_label, cfg) # rest) sim dredgers cycle_times =
     bind_err (fdiv (distance_to_da cfg) (speed_to_da cfg)) (\<lambda>out_time.
     bind_err (fdiv (distance_back cfg) (speed_back cfg)) (\<lambda>back_time.
       let mean_cycle = dredging_time cfg + out_time + dumping_time cfg + back_time;
           dredger = TSHD_init type_label cfg;
           sim1 = sim\<lparr>entities := (entities sim)(vessel_id dredger \<mapsto> dredger)\<rparr>;
           sim2 = start_work dredger sim1
       in fleet_loop rest sim2 (dredgers @ [type_label]) (cycle_times @ [mean_cycle])))"

text \<open>
  \<open>sum(d.total_dredged for d in dredgers)\<close>. A vessel whose label is used again by a later
  entry of the fleet is replaced in the registry and never receives an event: its total
  stays 0.
\<close>

fun total_material :: "Simulation \<Rightarrow> string list \<Rightarrow> real" where
  "total_material sim [] = 0"
| "total_material sim (l # ls) =
     (if l \<in> set ls then 0
      else (case entities sim l of Some d \<Rightarrow> total_dredged d | None \<Rightarrow> 0))
     + total_material sim ls"

text \<open>The increment of the horizon: \<open>max(0.25, float(min(cycle_times)) if cycle_times else 1.0)\<close>.\<close>

definition step_h :: "real list \<Rightarrow> real" where
  "step_h cycle_times = max 0.25 (if cycle_times \<noteq> [] then Min (set cycle_times) else 1)"

definition max_simulation_time :: real where
  "max_simulation_time = 24 * 365"

text \<open>
  The loop \<open>while True\<close> of the driver, with fuel: one unit for each round, and what is
  left for the call of \<open>run\<close> in that round. \<open>None\<close> means that the fuel ran out.
\<close>

fun campaign_loop ::
  "nat \<Rightarrow> (nat \<Rightarrow> real) \<Rightarrow> Simulation \<Rightarrow> string list \<Rightarrow> real \<Rightarrow> real \<Rightarrow> real \<Rightarrow>
   (error + Simulation) option" where
  "campaign_loop 0 z sim dredgers target_volume step current_end_time = None"
| "campaign_loop (Suc n) z sim dredgers target_volume step current_end_time =
     (case run n z (Some current_end_time) sim of
        None \<Rightarrow> None
      | Some (Inl e) \<Rightarrow> Some (Inl e)
      | Some (Inr sim1) \<Rightarrow>
          if total_material sim1 dredgers \<ge> target_volume \<or> clock sim1 \<ge> max_simulation_time
          then Some (Inr sim1)
          else campaign_loop n z sim1 dredgers target_volume step (current_end_time + step))"

definition run_simulation_streamlit ::
  "nat \<Rightarrow> (nat \<Rightarrow> real) \<Rightarrow> (string \<times> TSHDConfig) list \<Rightarrow> real \<Rightarrow> (error + Simulation) option" where
  "run_simulation_streamlit fuel z fleet_vessels target_volume =
     (case fleet_loop fleet_vessels Simulation_init [] [] of
        Inl e \<Rightarrow> Some (Inl e)
      | Inr (sim, dredgers, cycle_times) \<Rightarrow>
          campaign_loop fuel z sim dredgers target_volume (step_h cycle_times) (step_h cycle_times))"

text \<open>
  Calling \<open>run\<close> once for each bound of a list, in order, on the same engine; every call
  gets the same fuel.
\<close>

fun run_stages :: "nat \<Rightarrow> (nat \<Rightarrow> real) \<Rightarrow> real list \<Rightarrow> Simulation \<Rightarrow> (error + Simulation) option" where
  "run_stages fuel z [] sim = Some (Inr sim)"
| "run_stages fuel z (t # ts) sim =
     (case run fuel z (Some t) sim of
        Some (Inr sim') \<Rightarrow> run_stages fuel z ts sim'
      | r \<Rightarrow> r)"

text \<open>
  No two queued events have the same time, at the start of any pass through the loop of
  a call of \<open>run\<close>, and of the calls of \<open>run_stages\<close>.
\<close>

fun no_ties_loop :: "nat \<Rightarrow> (nat \<Rightarrow> real) \<Rightarrow> real option \<Rightarrow> Simulation \<Rightarrow> bool" where
  "no_ties_loop 0 z end_time sim = True"
| "no_ties_loop (Suc n) z end_time sim =
     (if event_queue sim \<noteq> [] \<and> running sim then
        distinct (map time (event_queue sim)) \<and>
        (case run_body z end_time sim of
           Continue sim' \<Rightarrow> no_ties_loop n z end_time sim'
         | Break sim' \<Rightarrow> True
         | Raise e \<Rightarrow> True)
      else True)"

fun no_ties_stages :: "nat \<Rightarrow> (nat \<Rightarrow> real) \<Rightarrow> real list \<Rightarrow> Simulation \<Rightarrow> bool" where
  "no_ties_stages fuel z [] sim = True"
| "no_ties_stages fuel z (t # ts) sim =
     (no_ties_loop fuel z (Some t) (sim\<lparr>running := True\<rparr>) \<and>
      (case run fuel z (Some t) sim of
         Some (Inr sim') \<Rightarrow> no_ties_stages fuel z ts sim'
       | r \<Rightarrow> True))"

text \<open>
  Two engine states that differ at most in the order in which the list \<open>event_queue\<close>
  holds its events.
\<close>

definition same_up_to_queue_order :: "Simulation \<Rightarrow> Simulation \<Rightarrow> bool" where
  "same_up_to_queue_order s s' =
     (s\<lparr>event_queue := event_queue s'\<rparr> = s' \<and> mset (event_queue s) = mset (event_queue s'))"

text \<open>
  Two vessels with the default configuration, registered and started, and a stream of
  variates whose first two are 0.
\<close>

definition vessel_B :: TSHD where
  "vessel_B = TSHD_init ''B'' TSHDConfig_default"

definition sim_AB :: Simulation where
  "sim_AB = start_work vessel_B (start_work vessel_A
              (Simulation_init\<lparr>entities := [''A'' \<mapsto> vessel_A, ''B'' \<mapsto> vessel_B]\<rparr>))"

definition draws_tie :: "nat \<Rightarrow> real" where
  "draws_tie n = (if n < 2 then 0 else real n)"

text \<open>
  The task whose duration the handler of an event type samples, and the value
  \<open>np.random.normal(mean, stdev)\<close> returns in that handler: the mean of the task, the
  standard deviation as the configured percentage of the mean, and the next variate of
  the generator.
\<close>

definition sampled_task :: "EventType \<Rightarrow> string option" where
  "sampled_task t =
     (case t of
        DREDGING_START \<Rightarrow> Some ''dredging''
      | DREDGING_COMPLETE \<Rightarrow> Some ''moving_to_da''
      | MOVE_TO_DA_COMPLETE \<Rightarrow> Some ''dumping''
      | DUMPING_COMPLETE \<Rightarrow> Some ''moving_back''
      | MOVE_TO_DA_START \<Rightarrow> None
      | DUMPING_START \<Rightarrow> None
      | MOVE_BACK_START \<Rightarrow> None
      | MOVE_BACK_COMPLETE \<Rightarrow> None)"

definition mean_duration :: "Event \<Rightarrow> TSHD \<Rightarrow> Simulation \<Rightarrow> real" where
  "mean_duration ev v sim =
     (let cfg = config v in
      case event_type ev of
        DREDGING_START \<Rightarrow>
          dredging_time cfg *
            ((case segment_manager sim of
                None \<Rightarrow> hopper_capacity cfg
              | Some seg_mgr \<Rightarrow>
                  (case fst (allocate seg_mgr (hopper_capacity cfg)) of
                     Some alloc \<Rightarrow> volume_m3 alloc | None \<Rightarrow> 0))
             / hopper_capacity cfg)
      | DREDGING_COMPLETE \<Rightarrow>
          (case py_float (dict_get (data ev) ''distance_to_da_nm'' (PFloat (distance_to_da cfg))) of
             Inr d \<Rightarrow> d / speed_to_da cfg | Inl e \<Rightarrow> 0)
      | MOVE_TO_DA_COMPLETE \<Rightarrow> dumping_time cfg
      | DUMPING_COMPLETE \<Rightarrow>
          (case py_float (dict_get (data ev) ''distance_to_da_nm'' (PFloat (distance_back cfg))) of
             Inr d \<Rightarrow> d / speed_back cfg | Inl e \<Rightarrow> 0)
      | MOVE_TO_DA_START \<Rightarrow> 0
      | DUMPING_START \<Rightarrow> 0
      | MOVE_BACK_START \<Rightarrow> 0
      | MOVE_BACK_COMPLETE \<Rightarrow> 0)"

definition stdev_pct :: "Event \<Rightarrow> TSHD \<Rightarrow> real" where
  "stdev_pct ev v =
     (case event_type ev of
        DREDGING_START \<Rightarrow> dredging_stdev_pct (config v)
      | DREDGING_COMPLETE \<Rightarrow> moving_stdev_pct (config v)
      | MOVE_TO_DA_COMPLETE \<Rightarrow> dumping_stdev_pct (config v)
      | DUMPING_COMPLETE \<Rightarrow> moving_stdev_pct (config v)
      | MOVE_TO_DA_START \<Rightarrow> 0
      | DUMPING_START \<Rightarrow> 0
      | MOVE_BACK_START \<Rightarrow> 0
      | MOVE_BACK_COMPLETE \<Rightarrow> 0)"

definition normal_draw :: "(nat \<Rightarrow> real) \<Rightarrow> Event \<Rightarrow> TSHD \<Rightarrow> Simulation \<Rightarrow> real" where
  "normal_draw z ev v sim =
     mean_duration ev v sim
     + mean_duration ev v sim * (stdev_pct ev v / 100) * z (rng_pos sim)"

text \<open>
  A log entry is a note, or a sample of the given task whose duration is the draw clamped
  from below at the floor of the task.
\<close>

definition sample_is_clamped_draw :: "real \<Rightarrow> string option \<Rightarrow> log_entry \<Rightarrow> bool" where
  "sample_is_clamped_draw x task_opt entry =
     (case entry of
        Note t m st \<Rightarrow> True
      | Sample t task d ex st \<Rightarrow> task_opt = Some task \<and> d = max (task_floor task) x)"

text \<open>
  The default vessel with the largest spread of the dredging time the application lets a
  user enter (50 per cent of the mean), registered and started.
\<close>

definition vessel_wide :: TSHD where
  "vessel_wide = TSHD_init ''A'' (TSHDConfig_default\<lparr>dredging_stdev_pct := 50\<rparr>)"

definition sim_wide :: Simulation where
  "sim_wide = start_work vessel_wide (Simulation_init\<lparr>entities := [''A'' \<mapsto> vessel_wide]\<rparr>)"

text \<open>The event \<open>start_work\<close> queues for that vessel, and draws that are all -2.\<close>

definition start_event :: Event where
  "start_event = \<lparr>time = 0, event_type = DREDGING_START, entity_id = ''A'', data = []\<rparr>"

definition draws_low :: "nat \<Rightarrow> real" where
  "draws_low n = - 2"

text \<open>
  A bound on the passes the run loop still makes up to the horizon \<open>t\<close>. An event later than
  \<open>t\<close> counts 0. A start marker counts 1: its handler schedules nothing. The other events
  count their rank and 200 for every time-unit between them and the horizon: each of
  their handlers schedules at most a marker and one event that is either at least 0.01
  later or of lower rank.
\<close>

definition phi :: "real \<Rightarrow> Event \<Rightarrow> real" where
  "phi t e =
     (if t < time e then 0
      else (case event_type e of
              DREDGING_START \<Rightarrow> 2 + 200 * (t - time e)
            | DREDGING_COMPLETE \<Rightarrow> 3 + 200 * (t - time e)
            | MOVE_TO_DA_START \<Rightarrow> 1
            | MOVE_TO_DA_COMPLETE \<Rightarrow> 3 + 200 * (t - time e)
            | DUMPING_START \<Rightarrow> 1
            | DUMPING_COMPLETE \<Rightarrow> 3 + 200 * (t - time e)
            | MOVE_BACK_START \<Rightarrow> 1
            | MOVE_BACK_COMPLETE \<Rightarrow> 3 + 200 * (t - time e)))"

definition potential :: "real \<Rightarrow> Event list \<Rightarrow> real" where
  "potential t q = sum_list (map (phi t) q)"

text \<open>
  The mean time of a full cycle of a vessel, as the driver computes it: dredging, the way
  out, dumping and the way back.
\<close>

definition mean_cycle :: "TSHDConfig \<Rightarrow> real" where
  "mean_cycle cfg =
     dredging_time cfg + distance_to_da cfg / speed_to_da cfg
     + dumping_time cfg + distance_back cfg / speed_back cfg"

text \<open>The test that ends the loop of the driver.\<close>

definition campaign_done :: "Simulation \<Rightarrow> string list \<Rightarrow> real \<Rightarrow> bool" where
  "campaign_done sim dredgers target_volume \<longleftrightarrow>
     total_material sim dredgers \<ge> target_volume \<or> clock sim \<ge> max_simulation_time"

text \<open>The horizons of the first \<open>m\<close> rounds: \<open>t\<close>, then \<open>step\<close> more in every round.\<close>

definition horizons :: "real \<Rightarrow> real \<Rightarrow> nat \<Rightarrow> real list" where
  "horizons t step m = map (\<lambda>j. t + real j * step) [0..<m]"

text \<open>
  A fleet of one vessel: the default configuration with a spread of the dredging time of
  50 per cent. The draws are all 2, so the first load takes 4 hours, longer than the
  first round of 3.5 hours.
\<close>

definition fleet_wide :: "(string \<times> TSHDConfig) list" where
  "fleet_wide = [(''A'', TSHDConfig_default\<lparr>dredging_stdev_pct := 50\<rparr>)]"

definition draws_high :: "nat \<Rightarrow> real" where
  "draws_high n = 2"

text \<open>The clock and the fleet's total of the state a call has returned.\<close>

definition clock_and_total :: "(error + Simulation) option \<Rightarrow> string list \<Rightarrow> (real \<times> real) option" where
  "clock_and_total r dredgers =
     (case r of
        Some (Inr sim) \<Rightarrow> Some (clock sim, total_material sim dredgers)
      | _ \<Rightarrow> None)"

section \<open>The priority queue keeps its items and the heap invariant\<close>

lemma heap_ok_iff:
  "heap_ok h \<longleftrightarrow> (\<forall>i. 0 < i \<and> i < length h \<longrightarrow> time (h ! ((i - 1) div 2)) \<le> time (h ! i))"
  by (auto simp: heap_ok_def list_all_iff)

lemma mset_move:
  "i < length h \<Longrightarrow> j < length h \<Longrightarrow> i \<noteq> j \<Longrightarrow> mset (h[i := h ! j, j := x]) = mset (h[i := x])"
proof -
  assume a: "i < length h" "j < length h" "i \<noteq> j"
  let ?g = "h[i := x]"
  have "mset (?g[j := ?g ! i, i := ?g ! j]) = mset ?g"
    using a by (intro mset_swap) auto
  moreover have "?g[j := ?g ! i, i := ?g ! j] = h[i := h ! j, j := x]"
    using a by (simp add: list_update_swap [of i j])
  ultimately show ?thesis by simp
qed

lemma length_siftdown_loop [simp]: "length (siftdown_loop h x s pos) = length h"
  by (induction h x s pos rule: siftdown_loop.induct)
     (subst siftdown_loop.simps, simp add: Let_def)

lemma mset_siftdown_loop:
  "pos < length h \<Longrightarrow> mset (siftdown_loop h x s pos) = mset (h[pos := x])"
proof (induction h x s pos rule: siftdown_loop.induct)
  case (1 heap newitem startpos pos)
  show ?case
  proof (cases "pos > startpos \<and> event_lt newitem (heap ! ((pos - 1) div 2))")
    case True
    then have lt: "(pos - 1) div 2 < pos" by auto
    have "mset (siftdown_loop heap newitem startpos pos) =
          mset (siftdown_loop (heap[pos := heap ! ((pos - 1) div 2)]) newitem startpos ((pos - 1) div 2))"
      using True by (subst siftdown_loop.simps) (simp add: Let_def)
    also have "\<dots> = mset ((heap[pos := heap ! ((pos - 1) div 2)])[(pos - 1) div 2 := newitem])"
      using True lt "1.prems" by (intro "1.IH") auto
    also have "\<dots> = mset (heap[pos := newitem])"
      using lt "1.prems" by (intro mset_move) auto
    finally show ?thesis .
  next
    case False
    then show ?thesis by (subst siftdown_loop.simps) (auto simp: Let_def)
  qed
qed

lemma siftup_loop_props:
  "pos < length h \<Longrightarrow> siftup_loop h pos = (h', p') \<Longrightarrow>
     length h' = length h \<and> p' < length h \<and> mset (h'[p' := x]) = mset (h[pos := x])"
proof (induction h pos arbitrary: h' p' rule: siftup_loop.induct)
  case (1 heap pos)
  show ?case
  proof (cases "2 * pos + 1 < length heap")
    case True
    define c where "c = (if 2 * pos + 2 < length heap \<and> \<not> event_lt (heap ! (2 * pos + 1)) (heap ! (2 * pos + 2))
                             then 2 * pos + 2 else 2 * pos + 1)"
    have c: "c < length heap" "pos \<noteq> c" using True by (auto simp: c_def)
    have eq: "siftup_loop heap pos = siftup_loop (heap[pos := heap ! c]) c"
      using True by (subst siftup_loop.simps) (simp add: Let_def c_def)
    have ih: "length h' = length (heap[pos := heap ! c]) \<and> p' < length (heap[pos := heap ! c]) \<and>
          mset (h'[p' := x]) = mset ((heap[pos := heap ! c])[c := x])"
      using True c "1.prems" eq
      by (intro "1.IH" [where x = "length heap" and xa = "2 * pos + 1" and xb = "2 * pos + 2"])
         (auto simp: c_def)
    moreover have "mset ((heap[pos := heap ! c])[c := x]) = mset (heap[pos := x])"
      using c "1.prems" by (intro mset_move) auto
    ultimately show ?thesis by simp
  next
    case False
    then have "siftup_loop heap pos = (heap, pos)"
      by (subst siftup_loop.simps) (simp add: Let_def)
    with "1.prems" show ?thesis by auto
  qed
qed

lemma mset_heappush [simp]: "mset (heappush h e) = add_mset e (mset h)"
  by (simp add: heappush_def siftdown_def mset_siftdown_loop)

lemma length_heappush [simp]: "length (heappush h e) = Suc (length h)"
  by (simp add: heappush_def siftdown_def)

lemma heappop_mset:
  assumes "h \<noteq> []"
  shows "\<exists>e q. heappop h = Inr (e, q) \<and> mset h = add_mset e (mset q) \<and> e = h ! 0"
proof (cases "butlast h = []")
  case True
  with assms obtain e where "h = [e]" by (cases h) (auto split: if_splits)
  then show ?thesis by (simp add: heappop_def)
next
  case False
  define g where "g = (butlast h)[0 := last h]"
  obtain g' p' where s: "siftup_loop g 0 = (g', p')" by fastforce
  have lb: "0 < length (butlast h)" using False by (metis length_greater_0_conv)
  have g0: "0 < length g" using lb by (simp add: g_def)
  from siftup_loop_props [OF g0 s, of "last h"]
  have p: "length g' = length g" "p' < length g" "mset (g'[p' := last h]) = mset (g[0 := last h])"
    by auto
  have "siftup g 0 = siftdown_loop (g'[p' := last h]) (last h) 0 p'"
    using s p g0 by (simp add: siftup_def siftdown_def g_def Let_def)
  then have "mset (siftup g 0) = mset (g'[p' := last h])"
    using p by (simp add: mset_siftdown_loop)
  also have "\<dots> = mset g" using p by (simp add: g_def)
  finally have m: "mset (siftup g 0) = mset g" .
  have "mset (butlast h @ [last h]) = add_mset (last h) (mset (butlast h))"
    by simp
  then have "mset h = add_mset (last h) (mset (butlast h))"
    using assms by simp
  moreover have "mset g = add_mset (last h) (mset (butlast h) - {#butlast h ! 0#})"
    using mset_update [OF lb, of "last h"] by (simp add: g_def)
  moreover have "butlast h ! 0 \<in># mset (butlast h)"
    using False by (metis length_greater_0_conv nth_mem set_mset_mset)
  ultimately have "mset h = add_mset (butlast h ! 0) (mset g)"
    by simp
  moreover have "butlast h ! 0 = h ! 0" using lb by (intro nth_butlast)
  ultimately show ?thesis
    using False assms m by (auto simp: heappop_def Let_def g_def)
qed


lemma siftdown_loop_heap_ok:
  "pos < length h \<Longrightarrow>
   (\<forall>i. 0 < i \<and> i < length h \<and> i \<noteq> pos \<longrightarrow> time (h ! ((i - 1) div 2)) \<le> time (h ! i)) \<Longrightarrow>
   (\<forall>c. 0 < c \<and> c < length h \<and> (c - 1) div 2 = pos \<longrightarrow> time x \<le> time (h ! c)) \<Longrightarrow>
   (0 < pos \<longrightarrow> (\<forall>c. 0 < c \<and> c < length h \<and> (c - 1) div 2 = pos \<longrightarrow>
                      time (h ! ((pos - 1) div 2)) \<le> time (h ! c))) \<Longrightarrow>
   heap_ok (siftdown_loop h x 0 pos)"
proof (induction pos arbitrary: h rule: less_induct)
  case (less pos)
  let ?pp = "(pos - 1) div 2"
  show ?case
  proof (cases "0 < pos \<and> event_lt x (h ! ?pp)")
    case True
    then have lt: "?pp < pos" by auto
    let ?h1 = "h[pos := h ! ?pp]"
    have eq: "siftdown_loop h x 0 pos = siftdown_loop ?h1 x 0 ?pp"
      using True by (subst siftdown_loop.simps) (simp add: Let_def)
    have xlt: "time x < time (h ! ?pp)" using True by (simp add: event_lt_def)
    have a: "\<And>i. 0 < i \<Longrightarrow> i < length h \<Longrightarrow> i \<noteq> pos \<Longrightarrow> time (h ! ((i - 1) div 2)) \<le> time (h ! i)"
      using less.prems(2) by blast
    have d: "\<And>c. 0 < c \<Longrightarrow> c < length h \<Longrightarrow> (c - 1) div 2 = pos \<Longrightarrow> time (h ! ?pp) \<le> time (h ! c)"
      using less.prems(4) True by auto
    have a1: "\<forall>i. 0 < i \<and> i < length ?h1 \<and> i \<noteq> ?pp \<longrightarrow> time (?h1 ! ((i - 1) div 2)) \<le> time (?h1 ! i)"
    proof (intro allI impI)
      fix i assume i: "0 < i \<and> i < length ?h1 \<and> i \<noteq> ?pp"
      show "time (?h1 ! ((i - 1) div 2)) \<le> time (?h1 ! i)"
      proof (cases "i = pos")
        case True
        then show ?thesis using lt less.prems(1) by simp
      next
        case False
        show ?thesis
        proof (cases "(i - 1) div 2 = pos")
          case True
          then show ?thesis using False i d [of i] less.prems(1) by simp
        next
          case np: False
          then show ?thesis using False i a [of i] by simp
        qed
      qed
    qed
    have b1: "\<forall>c. 0 < c \<and> c < length ?h1 \<and> (c - 1) div 2 = ?pp \<longrightarrow> time x \<le> time (?h1 ! c)"
    proof (intro allI impI)
      fix c assume c: "0 < c \<and> c < length ?h1 \<and> (c - 1) div 2 = ?pp"
      show "time x \<le> time (?h1 ! c)"
      proof (cases "c = pos")
        case True
        then show ?thesis using xlt less.prems(1) by simp
      next
        case False
        then have "time (h ! ?pp) \<le> time (h ! c)" using a [of c] c by simp
        then show ?thesis using False xlt by simp
      qed
    qed
    have d1: "0 < ?pp \<longrightarrow> (\<forall>c. 0 < c \<and> c < length ?h1 \<and> (c - 1) div 2 = ?pp \<longrightarrow>
                      time (?h1 ! ((?pp - 1) div 2)) \<le> time (?h1 ! c))"
    proof (intro allI impI)
      fix c assume pp: "0 < ?pp" and c: "0 < c \<and> c < length ?h1 \<and> (c - 1) div 2 = ?pp"
      have ne: "(?pp - 1) div 2 \<noteq> pos" using lt by linarith
      have g: "time (h ! ((?pp - 1) div 2)) \<le> time (h ! ?pp)"
        using a [of ?pp] pp lt less.prems(1) by simp
      show "time (?h1 ! ((?pp - 1) div 2)) \<le> time (?h1 ! c)"
      proof (cases "c = pos")
        case True
        then show ?thesis using g ne less.prems(1) by simp
      next
        case False
        then have "time (h ! ?pp) \<le> time (h ! c)" using a [of c] c by simp
        then show ?thesis using False g ne by simp
      qed
    qed
    have "heap_ok (siftdown_loop ?h1 x 0 ?pp)"
      using lt less.prems(1) a1 b1 d1 by (intro less.IH) auto
    with eq show ?thesis by simp
  next
    case False
    then have eq: "siftdown_loop h x 0 pos = h[pos := x]"
      by (subst siftdown_loop.simps) (auto simp: Let_def)
    have "time ((h[pos := x]) ! ((i - 1) div 2)) \<le> time ((h[pos := x]) ! i)"
      if i: "0 < i" "i < length h" for i
    proof (cases "i = pos")
      case True
      then have "(i - 1) div 2 \<noteq> pos" using i by linarith
      then show ?thesis using True False i by (simp add: event_lt_def)
    next
      case ne: False
      show ?thesis
      proof (cases "(i - 1) div 2 = pos")
        case True
        then show ?thesis using ne i less.prems(1,3) by simp
      next
        case False
        then show ?thesis using ne i less.prems(2) by simp
      qed
    qed
    then show ?thesis by (simp add: eq heap_ok_iff)
  qed
qed

lemma heap_ok_heappush: "heap_ok h \<Longrightarrow> heap_ok (heappush h e)"
proof -
  assume ok: "heap_ok h"
  let ?g = "h @ [e]"
  have a: "\<forall>i. 0 < i \<and> i < length ?g \<and> i \<noteq> length h \<longrightarrow> time (?g ! ((i - 1) div 2)) \<le> time (?g ! i)"
  proof (intro allI impI)
    fix i assume "0 < i \<and> i < length ?g \<and> i \<noteq> length h"
    then have i: "0 < i" "i < length h" by auto
    then have "(i - 1) div 2 < length h" by linarith
    then show "time (?g ! ((i - 1) div 2)) \<le> time (?g ! i)"
      using ok i by (simp add: heap_ok_iff nth_append)
  qed
  have nc: "\<not> (0 < c \<and> c < length ?g \<and> (c - 1) div 2 = length h)" for c
    by auto
  show ?thesis
    unfolding heappush_def siftdown_def
    by (rule siftdown_loop_heap_ok) (use a nc in auto)
qed


lemma child_cases:
  "0 < (i::nat) \<Longrightarrow> (i - 1) div 2 = pos \<Longrightarrow> i = 2 * pos + 1 \<or> i = 2 * pos + 2"
  by linarith

lemma siftup_loop_heap:
  "pos < length h \<Longrightarrow> siftup_loop h pos = (h', p') \<Longrightarrow>
   (\<forall>i. 0 < i \<and> i < length h \<and> (i - 1) div 2 \<noteq> pos \<longrightarrow> time (h ! ((i - 1) div 2)) \<le> time (h ! i)) \<Longrightarrow>
   (0 < pos \<longrightarrow> (\<forall>c. 0 < c \<and> c < length h \<and> (c - 1) div 2 = pos \<longrightarrow>
                      time (h ! ((pos - 1) div 2)) \<le> time (h ! c))) \<Longrightarrow>
   (\<forall>i. 0 < i \<and> i < length h' \<longrightarrow> time (h' ! ((i - 1) div 2)) \<le> time (h' ! i)) \<and>
   length h' \<le> 2 * p' + 1"
proof (induction h pos arbitrary: h' p' rule: siftup_loop.induct)
  case (1 heap pos)
  show ?case
  proof (cases "2 * pos + 1 < length heap")
    case True
    define c where "c = (if 2 * pos + 1 + 1 < length heap \<and>
                             \<not> event_lt (heap ! (2 * pos + 1)) (heap ! (2 * pos + 1 + 1))
                          then 2 * pos + 1 + 1 else 2 * pos + 1)"
    have "c = 2 * pos + 1 \<or> c = 2 * pos + 2" by (simp add: c_def)
    moreover have "c < length heap" using True by (simp add: c_def)
    ultimately have c: "c < length heap" "pos < c" "0 < c" "(c - 1) div 2 = pos" by auto
    let ?h1 = "heap[pos := heap ! c]"
    have eq: "siftup_loop heap pos = siftup_loop ?h1 c"
      using True by (subst siftup_loop.simps) (simp add: Let_def c_def)
    have least: "time (heap ! c) \<le> time (heap ! i)"
      if "0 < i" "i < length heap" "(i - 1) div 2 = pos" for i
    proof -
      from child_cases [OF that(1,3)] show ?thesis
        using that(2) by (auto simp: c_def event_lt_def split: if_splits)
    qed
    have a: "\<And>i. 0 < i \<Longrightarrow> i < length heap \<Longrightarrow> (i - 1) div 2 \<noteq> pos \<Longrightarrow>
                 time (heap ! ((i - 1) div 2)) \<le> time (heap ! i)"
      using "1.prems"(3) by blast
    have a1: "\<forall>i. 0 < i \<and> i < length ?h1 \<and> (i - 1) div 2 \<noteq> c \<longrightarrow>
                 time (?h1 ! ((i - 1) div 2)) \<le> time (?h1 ! i)"
    proof (intro allI impI)
      fix i assume i: "0 < i \<and> i < length ?h1 \<and> (i - 1) div 2 \<noteq> c"
      show "time (?h1 ! ((i - 1) div 2)) \<le> time (?h1 ! i)"
      proof (cases "i = pos")
        case True
        then have ne: "(pos - 1) div 2 \<noteq> pos" using i by linarith
        have "time (heap ! ((pos - 1) div 2)) \<le> time (heap ! c)"
          using "1.prems"(4) c True i by auto
        then show ?thesis using True ne "1.prems"(1) by simp
      next
        case False
        show ?thesis
        proof (cases "(i - 1) div 2 = pos")
          case True
          then show ?thesis using False i least [of i] "1.prems"(1) by simp
        next
          case np: False
          then show ?thesis using False i a [of i] by simp
        qed
      qed
    qed
    have d1: "0 < c \<longrightarrow> (\<forall>c'. 0 < c' \<and> c' < length ?h1 \<and> (c' - 1) div 2 = c \<longrightarrow>
                      time (?h1 ! ((c - 1) div 2)) \<le> time (?h1 ! c'))"
    proof (intro allI impI)
      fix c' assume c': "0 < c' \<and> c' < length ?h1 \<and> (c' - 1) div 2 = c"
      then have "c' \<noteq> pos" using c by linarith
      moreover have "time (heap ! c) \<le> time (heap ! c')"
        using a [of c'] c' c by auto
      ultimately show "time (?h1 ! ((c - 1) div 2)) \<le> time (?h1 ! c')"
        using c "1.prems"(1) by simp
    qed
    note ih = "1.IH" [OF refl refl True refl refl, folded c_def]
    have c1: "c < length ?h1" using c by simp
    have s1: "siftup_loop ?h1 c = (h', p')" using eq "1.prems"(2) by simp
    show ?thesis by (rule ih [OF c1 s1 a1 d1])
  next
    case False
    then have eq: "siftup_loop heap pos = (heap, pos)"
      by (subst siftup_loop.simps) (simp add: Let_def)
    have "time (heap ! ((i - 1) div 2)) \<le> time (heap ! i)" if i: "0 < i" "i < length heap" for i
    proof -
      have "(i - 1) div 2 \<noteq> pos" using child_cases [OF i(1)] i(2) False by auto
      then show ?thesis using "1.prems"(3) i by blast
    qed
    then show ?thesis using eq "1.prems"(2) False by auto
  qed
qed

lemma heap_ok_heappop:
  assumes ok: "heap_ok h" and pop: "heappop h = Inr (e, q)"
  shows "heap_ok q"
proof (cases "butlast h = []")
  case True
  then show ?thesis using pop by (auto simp: heappop_def heap_ok_def Let_def split: if_splits)
next
  case False
  have lb: "0 < length (butlast h)" using False by (metis length_greater_0_conv)
  then have hne: "h \<noteq> []" by auto
  define g where "g = (butlast h)[0 := last h]"
  obtain g' p' where s: "siftup_loop g 0 = (g', p')" by fastforce
  have g0: "0 < length g" using lb by (simp add: g_def)
  from siftup_loop_props [OF g0 s, of "last h"]
  have p: "length g' = length g" "p' < length g" by auto
  have q: "q = siftdown_loop (g'[p' := last h]) (last h) 0 p'"
    using pop False hne s p g0 by (simp add: heappop_def siftup_def siftdown_def g_def Let_def)
  have ka: "\<forall>i. 0 < i \<and> i < length g \<and> (i - 1) div 2 \<noteq> 0 \<longrightarrow> time (g ! ((i - 1) div 2)) \<le> time (g ! i)"
  proof (intro allI impI)
    fix i assume i: "0 < i \<and> i < length g \<and> (i - 1) div 2 \<noteq> 0"
    then have "i < length h" "(i - 1) div 2 < length (butlast h)" "i < length (butlast h)"
      by (auto simp: g_def)
    then show "time (g ! ((i - 1) div 2)) \<le> time (g ! i)"
      using i ok by (simp add: g_def heap_ok_iff nth_butlast)
  qed
  from siftup_loop_heap [OF g0 s ka]
  have g': "\<And>i. 0 < i \<Longrightarrow> i < length g' \<Longrightarrow> time (g' ! ((i - 1) div 2)) \<le> time (g' ! i)"
    and leaf: "length g' \<le> 2 * p' + 1" by auto
  have noc: "\<not> (0 < c \<and> c < length g' \<and> (c - 1) div 2 = p')" for c
    using leaf child_cases [of c p'] by auto
  have a: "\<forall>i. 0 < i \<and> i < length (g'[p' := last h]) \<and> i \<noteq> p' \<longrightarrow>
             time ((g'[p' := last h]) ! ((i - 1) div 2)) \<le> time ((g'[p' := last h]) ! i)"
  proof (intro allI impI)
    fix i assume i: "0 < i \<and> i < length (g'[p' := last h]) \<and> i \<noteq> p'"
    then have "(i - 1) div 2 \<noteq> p'" using noc [of i] by auto
    then show "time ((g'[p' := last h]) ! ((i - 1) div 2)) \<le> time ((g'[p' := last h]) ! i)"
      using i g' [of i] by simp
  qed
  show ?thesis
    unfolding q
    by (rule siftdown_loop_heap_ok) (use a noc p in auto)
qed

lemma heap_ok_min: "heap_ok h \<Longrightarrow> i < length h \<Longrightarrow> time (h ! 0) \<le> time (h ! i)"
proof (induction i rule: less_induct)
  case (less i)
  show ?case
  proof (cases "i = 0")
    case True
    then show ?thesis by simp
  next
    case False
    then have lt: "(i - 1) div 2 < i" by linarith
    then have "time (h ! 0) \<le> time (h ! ((i - 1) div 2))"
      using less.prems by (intro less.IH) auto
    moreover have "time (h ! ((i - 1) div 2)) \<le> time (h ! i)"
      using less.prems False by (simp add: heap_ok_iff)
    ultimately show ?thesis by simp
  qed
qed

section \<open>The segment allocator\<close>

lemma next_from_None: "next_from k vs = None \<longleftrightarrow> (\<forall>v \<in> set vs. \<not> 0 < v)"
  by (induction vs arbitrary: k) auto

lemma next_from_least:
  "i < length vs \<Longrightarrow> 0 < vs ! i \<Longrightarrow> (\<forall>j<i. \<not> 0 < vs ! j) \<Longrightarrow> next_from k vs = Some (k + i + 1)"
proof (induction vs arbitrary: k i)
  case Nil
  then show ?case by simp
next
  case (Cons v vs)
  show ?case
  proof (cases i)
    case 0
    with Cons.prems show ?thesis by simp
  next
    case (Suc i')
    with Cons.prems have "\<not> 0 < v" by auto
    moreover have "next_from (k + 1) vs = Some (k + 1 + i' + 1)"
      using Cons.prems Suc by (intro Cons.IH) auto
    ultimately show ?thesis using Suc by simp
  qed
qed

text \<open>
  Claim C4. A call \<open>allocate(v)\<close> with \<open>v \<le> 0\<close> returns \<open>None\<close> and leaves the manager as it
  is. For \<open>v > 0\<close> the result is \<open>None\<close> exactly when no segment has a positive remaining
  volume; otherwise, for the lowest index \<open>i\<close> (0-based) with a positive remaining volume,
  the allocation names segment \<open>i + 1\<close>, takes \<open>min v (remaining i)\<close> from that segment and
  from no other, and reports the distance \<open>(segment_index - 1) * segment_length\<close>. With the
  volumes 1000, 0, 500 and length 2, three calls \<open>allocate(5000)\<close> return segment 1 with
  1000 at distance 0, then segment 3 with 500 at distance 4, then \<open>None\<close>.
\<close>

theorem allocate_nearest_first:
  "(requested \<le> 0 \<longrightarrow> allocate m requested = (None, m)) \<and>
   (0 < requested \<longrightarrow>
      (fst (allocate m requested) = None \<longleftrightarrow> (\<forall>v \<in> set (remaining_m3 m). \<not> 0 < v)) \<and>
      (\<forall>i. i < length (remaining_m3 m) \<and> 0 < remaining_m3 m ! i \<and>
            (\<forall>j<i. \<not> 0 < remaining_m3 m ! j) \<longrightarrow>
         allocate m requested =
           (Some \<lparr>segment_index = int i + 1,
                  volume_m3 = min requested (remaining_m3 m ! i),
                  distance_to_da_nm = (real i + 1 - 1) * segment_length_nm m\<rparr>,
            m\<lparr>remaining_m3 := (remaining_m3 m)
                 [i := remaining_m3 m ! i - min requested (remaining_m3 m ! i)]\<rparr>))) \<and>
   SegmentManager_init [1000, 0, 500] 2 = Inr channel_B \<and>
   (let (r1, m1) = allocate channel_B 5000; (r2, m2) = allocate m1 5000; (r3, m3) = allocate m2 5000
    in r1 = Some \<lparr>segment_index = 1, volume_m3 = 1000, distance_to_da_nm = 0\<rparr> \<and>
       r2 = Some \<lparr>segment_index = 3, volume_m3 = 500, distance_to_da_nm = 4\<rparr> \<and>
       r3 = None)"
proof (intro conjI impI allI)
  show "allocate m requested = (None, m)" if "requested \<le> 0"
    using that by (simp add: allocate_def)
next
  assume pos: "0 < requested"
  show "fst (allocate m requested) = None \<longleftrightarrow> (\<forall>v \<in> set (remaining_m3 m). \<not> 0 < v)"
    using pos next_from_None [of 0 "remaining_m3 m"]
    by (auto simp: allocate_def next_segment_with_work_def Let_def split: option.splits)
next
  fix i
  assume pos: "0 < requested"
    and i: "i < length (remaining_m3 m) \<and> 0 < remaining_m3 m ! i \<and> (\<forall>j<i. \<not> 0 < remaining_m3 m ! j)"
  then have "next_from 0 (remaining_m3 m) = Some (0 + i + 1)"
    by (intro next_from_least) auto
  with pos show "allocate m requested =
           (Some \<lparr>segment_index = int i + 1,
                  volume_m3 = min requested (remaining_m3 m ! i),
                  distance_to_da_nm = (real i + 1 - 1) * segment_length_nm m\<rparr>,
            m\<lparr>remaining_m3 := (remaining_m3 m)
                 [i := remaining_m3 m ! i - min requested (remaining_m3 m ! i)]\<rparr>)"
    by (simp add: allocate_def next_segment_with_work_def Let_def)
next
  show "SegmentManager_init [1000, 0, 500] 2 = Inr channel_B"
    by (simp add: SegmentManager_init_def channel_B_def)
next
  show "let (r1, m1) = allocate channel_B 5000; (r2, m2) = allocate m1 5000; (r3, m3) = allocate m2 5000
    in r1 = Some \<lparr>segment_index = 1, volume_m3 = 1000, distance_to_da_nm = 0\<rparr> \<and>
       r2 = Some \<lparr>segment_index = 3, volume_m3 = 500, distance_to_da_nm = 4\<rparr> \<and>
       r3 = None"
    by (simp add: allocate_def next_segment_with_work_def channel_B_def Let_def)
qed

theorem allocate_nearest_first_witness:
  "allocate \<lparr>segment_length_nm = 3, remaining_m3 = [0, 700, 40]\<rparr> 200 =
     (Some \<lparr>segment_index = 2, volume_m3 = 200, distance_to_da_nm = 3\<rparr>,
      \<lparr>segment_length_nm = 3, remaining_m3 = [0, 500, 40]\<rparr>) \<and>
   allocate \<lparr>segment_length_nm = 3, remaining_m3 = [0, 700, 40]\<rparr> (-1) =
     (None, \<lparr>segment_length_nm = 3, remaining_m3 = [0, 700, 40]\<rparr>) \<and>
   fst (allocate \<lparr>segment_length_nm = 3, remaining_m3 = [0, 0]\<rparr> 200) = None"
proof -
  let ?m = "\<lparr>segment_length_nm = 3, remaining_m3 = [0, 700, 40]\<rparr>"
  note t = allocate_nearest_first [of 200 ?m]
  from t have "\<forall>i. i < length (remaining_m3 ?m) \<and> 0 < remaining_m3 ?m ! i \<and>
            (\<forall>j<i. \<not> 0 < remaining_m3 ?m ! j) \<longrightarrow>
         allocate ?m 200 =
           (Some \<lparr>segment_index = int i + 1,
                  volume_m3 = min 200 (remaining_m3 ?m ! i),
                  distance_to_da_nm = (real i + 1 - 1) * segment_length_nm ?m\<rparr>,
            ?m\<lparr>remaining_m3 := (remaining_m3 ?m)
                 [i := remaining_m3 ?m ! i - min 200 (remaining_m3 ?m ! i)]\<rparr>)"
    by simp
  from this [rule_format, of 1]
  have a: "allocate ?m 200 =
     (Some \<lparr>segment_index = 2, volume_m3 = 200, distance_to_da_nm = 3\<rparr>,
      \<lparr>segment_length_nm = 3, remaining_m3 = [0, 500, 40]\<rparr>)"
    by simp
  have b: "allocate ?m (-1) = (None, ?m)"
    using allocate_nearest_first [of "-1" ?m] by simp
  have c: "fst (allocate \<lparr>segment_length_nm = 3, remaining_m3 = [0, 0]\<rparr> 200) = None"
    using allocate_nearest_first [of 200 "\<lparr>segment_length_nm = 3, remaining_m3 = [0, 0]\<rparr>"]
    by simp
  from a b c show ?thesis by simp
qed

section \<open>The run loop\<close>

lemma get_next_event_pop:
  "heappop (event_queue sim) = Inr (event, q) \<Longrightarrow>
   get_next_event sim = Inr (Some event, sim\<lparr>event_queue := q\<rparr>)"
  by (auto simp: get_next_event_def bind_err_def heappop_def split: if_splits)

lemma run_body_unknown:
  assumes pop: "heappop (event_queue sim) = Inr (event, q)"
    and within: "\<not> (truthy end_time \<and> time event > the end_time)"
    and unknown: "entities sim (entity_id event) = None"
  shows "run_body z end_time sim =
     Continue (sim\<lparr>event_queue := q, clock := time event,
                    statistics := (statistics sim)\<lparr>events_processed := events_processed (statistics sim) + 1\<rparr>,
                    printed := printed sim @ [warning event]\<rparr>)"
  using within unknown by (simp add: run_body_def get_next_event_pop [OF pop] Let_def)

lemma heappop_nonempty: "heappop h = Inr (e, q) \<Longrightarrow> h \<noteq> []"
  by (auto simp: heappop_def)

lemma heappop_facts:
  assumes "heappop h = Inr (e, q)"
  shows "mset h = add_mset e (mset q)" and "e = h ! 0" and "length h = Suc (length q)"
    and "e \<in> set h" and "set q \<subseteq> set h"
proof -
  from heappop_mset [OF heappop_nonempty [OF assms]] assms
  show m: "mset h = add_mset e (mset q)" and "e = h ! 0" by auto
  from m have "size (mset h) = Suc (size (mset q))" by simp
  then show "length h = Suc (length q)" by simp
  from m have "set_mset (mset h) = insert e (set_mset (mset q))" by simp
  then show "e \<in> set h" and "set q \<subseteq> set h" by auto
qed

lemma heappop_total: "h \<noteq> [] \<Longrightarrow> \<exists>e q. heappop h = Inr (e, q)"
  using heappop_mset by blast

lemma run_loop_all_unknown:
  "\<forall>e \<in> set (event_queue sim). entities sim (entity_id e) = None \<Longrightarrow> running sim \<Longrightarrow>
   length (event_queue sim) = n \<Longrightarrow>
   \<exists>sim'. run_loop (Suc n) z None sim = Some (Inr sim') \<and> event_queue sim' = [] \<and>
          events_processed (statistics sim') = events_processed (statistics sim) + int n \<and>
          length (printed sim') = length (printed sim) + n \<and> entities sim' = entities sim"
proof (induction n arbitrary: sim)
  case 0
  then show ?case by simp
next
  case (Suc n)
  then have ne: "event_queue sim \<noteq> []" by auto
  then obtain e q where pop: "heappop (event_queue sim) = Inr (e, q)"
    using heappop_total by blast
  note f = heappop_facts [OF pop]
  let ?s = "sim\<lparr>event_queue := q, clock := time e,
                    statistics := (statistics sim)\<lparr>events_processed := events_processed (statistics sim) + 1\<rparr>,
                    printed := printed sim @ [warning e]\<rparr>"
  have body: "run_body z None sim = Continue ?s"
    using Suc.prems(1) f(4) by (intro run_body_unknown [OF pop]) (auto simp: truthy_def)
  have "\<exists>sim'. run_loop (Suc n) z None ?s = Some (Inr sim') \<and> event_queue sim' = [] \<and>
          events_processed (statistics sim') = events_processed (statistics ?s) + int n \<and>
          length (printed sim') = length (printed ?s) + n \<and> entities sim' = entities ?s"
    using Suc.prems f by (intro Suc.IH) auto
  then obtain sim' where s': "run_loop (Suc n) z None ?s = Some (Inr sim')" "event_queue sim' = []"
          "events_processed (statistics sim') = events_processed (statistics ?s) + int n"
          "length (printed sim') = length (printed ?s) + n" "entities sim' = entities ?s"
    by blast
  have "run_loop (Suc (Suc n)) z None sim = run_loop (Suc n) z None ?s"
    using ne Suc.prems(2) body by (simp del: run_loop.simps(2) add: run_loop.simps(2) [of "Suc n"])
  with s' show ?case by (intro exI [of _ sim']) simp
qed

lemma run_body_beyond_horizon:
  "heappop (event_queue sim) = Inr (event, q) \<Longrightarrow> t \<noteq> 0 \<Longrightarrow> time event > t \<Longrightarrow>
   run_body z (Some t) sim = Break (sim\<lparr>event_queue := heappush q event, clock := t\<rparr>)"
  by (simp add: run_body_def get_next_event_pop truthy_def schedule_event_def)

lemma run_body_no_break:
  "\<not> truthy end_time \<Longrightarrow> run_body z end_time sim \<noteq> Break sim'"
  by (auto simp: run_body_def Let_def split: sum.splits option.splits prod.splits)

lemma heappush_Nil [simp]: "heappush [] e = [e]"
  by (simp add: heappush_def siftdown_def siftdown_loop.simps)

lemma heappop_single [simp]: "heappop [e] = Inr (e, [])"
  by (simp add: heappop_def)

lemma sim_ghost_queue: "event_queue sim_ghost = [ghost_event]"
  by (simp add: sim_ghost_def schedule_event_def Simulation_init_def)

text \<open>
  Claim C8. An event popped within the horizon whose owner is not in the registry does
  not raise: the pass through the loop body sets the clock to the event's time, adds one
  to \<open>events_processed\<close>, prints the warning, drops the event, and the loop goes on with
  the rest of the queue. When no queued event has a registered owner, a run with no bound
  returns normally with an empty queue, every event counted and one warning for each.
\<close>

theorem unknown_entity_is_skipped:
  "(heappop (event_queue sim) = Inr (event, q) \<and>
    \<not> (truthy end_time \<and> time event > the end_time) \<and>
    entities sim (entity_id event) = None \<and> running sim \<longrightarrow>
      run_body z end_time sim =
        Continue (sim\<lparr>event_queue := q, clock := time event,
                       statistics := (statistics sim)
                         \<lparr>events_processed := events_processed (statistics sim) + 1\<rparr>,
                       printed := printed sim @ [warning event]\<rparr>) \<and>
      run_loop (Suc n) z end_time sim =
        run_loop n z end_time
          (sim\<lparr>event_queue := q, clock := time event,
                statistics := (statistics sim)
                  \<lparr>events_processed := events_processed (statistics sim) + 1\<rparr>,
                printed := printed sim @ [warning event]\<rparr>)) \<and>
   ((\<forall>e \<in> set (event_queue sim). entities sim (entity_id e) = None) \<longrightarrow>
      (\<exists>sim'. run (Suc (length (event_queue sim))) z None sim = Some (Inr sim') \<and>
             event_queue sim' = [] \<and>
             events_processed (statistics sim') =
               events_processed (statistics sim) + int (length (event_queue sim)) \<and>
             length (printed sim') = length (printed sim) + length (event_queue sim)))"
proof (intro conjI impI)
  assume a: "heappop (event_queue sim) = Inr (event, q) \<and>
    \<not> (truthy end_time \<and> time event > the end_time) \<and>
    entities sim (entity_id event) = None \<and> running sim"
  then have pop: "heappop (event_queue sim) = Inr (event, q)"
    and within: "\<not> (truthy end_time \<and> time event > the end_time)"
    and unknown: "entities sim (entity_id event) = None" and r: "running sim"
    by auto
  show body: "run_body z end_time sim =
       Continue (sim\<lparr>event_queue := q, clock := time event,
                      statistics := (statistics sim)
                        \<lparr>events_processed := events_processed (statistics sim) + 1\<rparr>,
                      printed := printed sim @ [warning event]\<rparr>)"
    by (rule run_body_unknown [OF pop within unknown])
  have "event_queue sim \<noteq> []" using pop by (rule heappop_nonempty)
  then show "run_loop (Suc n) z end_time sim =
       run_loop n z end_time
         (sim\<lparr>event_queue := q, clock := time event,
               statistics := (statistics sim)
                 \<lparr>events_processed := events_processed (statistics sim) + 1\<rparr>,
               printed := printed sim @ [warning event]\<rparr>)"
    using r body by simp
next
  assume u: "\<forall>e \<in> set (event_queue sim). entities sim (entity_id e) = None"
  let ?s = "sim\<lparr>running := True\<rparr>"
  have "\<exists>sim'. run_loop (Suc (length (event_queue sim))) z None ?s = Some (Inr sim') \<and>
          event_queue sim' = [] \<and>
          events_processed (statistics sim') =
            events_processed (statistics ?s) + int (length (event_queue sim)) \<and>
          length (printed sim') = length (printed ?s) + length (event_queue sim) \<and>
          entities sim' = entities ?s"
    using u by (intro run_loop_all_unknown) auto
  then obtain sim' where s': "run_loop (Suc (length (event_queue sim))) z None ?s = Some (Inr sim')"
      "event_queue sim' = []"
      "events_processed (statistics sim') =
            events_processed (statistics sim) + int (length (event_queue sim))"
      "length (printed sim') = length (printed sim) + length (event_queue sim)"
    by auto
  show "\<exists>sim'. run (Suc (length (event_queue sim))) z None sim = Some (Inr sim') \<and>
             event_queue sim' = [] \<and>
             events_processed (statistics sim') =
               events_processed (statistics sim) + int (length (event_queue sim)) \<and>
             length (printed sim') = length (printed sim) + length (event_queue sim)"
    using s' by (intro exI [of _ "sim'\<lparr>running := False\<rparr>"]) (simp add: run_def)
qed

theorem unknown_entity_is_skipped_witness:
  "run_body (\<lambda>_. 0) (Some 5) (sim_ghost\<lparr>running := True\<rparr>) =
     Continue (sim_ghost\<lparr>running := True, event_queue := [], clock := 1,
                 statistics := (statistics sim_ghost)\<lparr>events_processed := 1\<rparr>,
                 printed := [''Warning: Entity ghost not found for event EventType.DREDGING_START'']\<rparr>) \<and>
   (\<exists>sim'. run 2 (\<lambda>_. 0) None sim_ghost = Some (Inr sim') \<and> event_queue sim' = [] \<and>
          events_processed (statistics sim') = 1 \<and> length (printed sim') = 1)"
proof -
  have e: "entities sim_ghost ''ghost'' = None"
    by (simp add: sim_ghost_def schedule_event_def Simulation_init_def)
  have t: "time ghost_event = 1" "entity_id ghost_event = ''ghost''"
    by (simp_all add: ghost_event_def)
  have st: "events_processed (statistics sim_ghost) = 0" "printed sim_ghost = []"
    by (simp_all add: sim_ghost_def schedule_event_def Simulation_init_def)
  have w: "warning ghost_event = ''Warning: Entity ghost not found for event EventType.DREDGING_START''"
    by (simp add: warning_def ghost_event_def EventType_str_def)
  from unknown_entity_is_skipped [of "sim_ghost\<lparr>running := True\<rparr>" ghost_event "[]" "Some 5" "\<lambda>_. 0" 0]
  have a: "run_body (\<lambda>_. 0) (Some 5) (sim_ghost\<lparr>running := True\<rparr>) =
     Continue (sim_ghost\<lparr>running := True, event_queue := [], clock := 1,
                 statistics := (statistics sim_ghost)\<lparr>events_processed := 1\<rparr>,
                 printed := [''Warning: Entity ghost not found for event EventType.DREDGING_START'']\<rparr>)"
    by (simp add: sim_ghost_queue e t st w truthy_def)
  from unknown_entity_is_skipped [of sim_ghost ghost_event "[]" "Some 5" "\<lambda>_. 0" 0]
  have b: "\<exists>sim'. run 2 (\<lambda>_. 0) None sim_ghost = Some (Inr sim') \<and> event_queue sim' = [] \<and>
          events_processed (statistics sim') = 1 \<and> length (printed sim') = 1"
    by (simp add: sim_ghost_queue e t st numeral_2_eq_2)
  from a b show ?thesis by simp
qed

text \<open>
  Claim C1 at the bound 0.0. The condition \<open>if end_time and event.time > end_time\<close> is
  false for \<open>end_time = 0.0\<close>, so \<open>run(0.0)\<close> on a queue whose earliest event is at time 1
  does not put the event back and does not set the clock to the bound: the event is
  consumed, counted, and the clock ends at 1.
\<close>

theorem run_zero_bound_consumes_later_event:
  "run 2 z (Some 0) sim_ghost =
     Some (Inr (sim_ghost\<lparr>event_queue := [], clock := 1,
                  statistics := (statistics sim_ghost)\<lparr>events_processed := 1\<rparr>,
                  printed := [warning ghost_event]\<rparr>)) \<and>
   event_queue sim_ghost = [ghost_event] \<and> time ghost_event = 1"
proof -
  have e: "entities sim_ghost ''ghost'' = None" "running sim_ghost = False"
    by (simp_all add: sim_ghost_def schedule_event_def Simulation_init_def)
  have t: "time ghost_event = 1" "entity_id ghost_event = ''ghost''"
    by (simp_all add: ghost_event_def)
  have st: "events_processed (statistics sim_ghost) = 0" "printed sim_ghost = []"
    by (simp_all add: sim_ghost_def schedule_event_def Simulation_init_def)
  have body: "run_body z (Some 0) (sim_ghost\<lparr>running := True\<rparr>) =
     Continue (sim_ghost\<lparr>running := True, event_queue := [], clock := 1,
                 statistics := (statistics sim_ghost)\<lparr>events_processed := 1\<rparr>,
                 printed := [warning ghost_event]\<rparr>)"
    using run_body_unknown [of "sim_ghost\<lparr>running := True\<rparr>" ghost_event "[]" "Some 0" z]
    by (simp add: sim_ghost_queue e t st truthy_def)
  have "run 2 z (Some 0) sim_ghost =
     Some (Inr (sim_ghost\<lparr>event_queue := [], clock := 1,
                  statistics := (statistics sim_ghost)\<lparr>events_processed := 1\<rparr>,
                  printed := [warning ghost_event]\<rparr>))"
    using e by (simp add: run_def numeral_2_eq_2 sim_ghost_queue body)
  then show ?thesis by (simp add: sim_ghost_queue t)
qed

section \<open>What a handler changes\<close>

lemma set_heappush [simp]: "set (heappush q e) = insert e (set q)"
proof -
  have "set (heappush q e) = set_mset (mset (heappush q e))"
    by (simp only: set_mset_mset)
  also have "\<dots> = insert e (set q)"
    by simp
  finally show ?thesis .
qed

lemma schedule_event_simps [simp]:
  "event_queue (schedule_event s e) = heappush (event_queue s) e"
  "clock (schedule_event s e) = clock s"
  "entities (schedule_event s e) = entities s"
  "statistics (schedule_event s e) = statistics s"
  "running (schedule_event s e) = running s"
  "segment_manager (schedule_event s e) = segment_manager s"
  "rng_pos (schedule_event s e) = rng_pos s"
  "printed (schedule_event s e) = printed s"
  by (simp_all add: schedule_event_def)

lemma log_append_simps [simp]:
  "event_log (log_append v x) = event_log v @ [x]"
  "vessel_id (log_append v x) = vessel_id v"
  "config (log_append v x) = config v"
  "state (log_append v x) = state v"
  "hopper_level (log_append v x) = hopper_level v"
  "total_dredged (log_append v x) = total_dredged v"
  "cycle_count (log_append v x) = cycle_count v"
  "state_history (log_append v x) = state_history v"
  "current_segment_index (log_append v x) = current_segment_index v"
  by (simp_all add: log_append_def)

lemma history_append_simps [simp]:
  "event_log (history_append v t) = event_log v"
  "vessel_id (history_append v t) = vessel_id v"
  "config (history_append v t) = config v"
  "state (history_append v t) = state v"
  "hopper_level (history_append v t) = hopper_level v"
  "total_dredged (history_append v t) = total_dredged v"
  "cycle_count (history_append v t) = cycle_count v"
  "state_history (history_append v t) = state_history v @ [(t, state v)]"
  "current_segment_index (history_append v t) = current_segment_index v"
  by (simp_all add: history_append_def)

lemmas handler_defs =
  handle_event_def start_dredging_def start_dredging_sample_def go_idle_def
  complete_dredging_def start_move_to_da_def complete_move_to_da_def start_dumping_def
  complete_dumping_def start_move_back_def complete_move_back_def bind_err_def fdiv_def
  np_normal_def Let_def

lemma handle_event_frame:
  "handle_event z ev v s = Inr (v', s') \<Longrightarrow>
   clock s' = clock s \<and> entities s' = entities s \<and> running s' = running s \<and>
   printed s' = printed s \<and>
   events_processed (statistics s') = events_processed (statistics s) \<and>
   vessel_id v' = vessel_id v \<and> config v' = config v"
  by (auto simp: handler_defs
           split: EventType.splits sum.splits option.splits prod.splits if_splits)

lemma handle_event_queue:
  "handle_event z ev v s = Inr (v', s') \<Longrightarrow>
   mset (event_queue s) \<subseteq># mset (event_queue s') \<and>
   (\<forall>e. e \<in># mset (event_queue s') - mset (event_queue s) \<longrightarrow>
        entity_id e = vessel_id v \<and> clock s \<le> time e)"
  by (auto simp: handler_defs
           split: EventType.splits sum.splits option.splits prod.splits if_splits)

lemma task_floor_simps [simp]:
  "task_floor ''dredging'' = 1 / 10"
  "task_floor ''moving_to_da'' = 1 / 100"
  "task_floor ''dumping'' = 1 / 20"
  "task_floor ''moving_back'' = 1 / 100"
  by (simp_all add: task_floor_def)

lemma sample_at_least_floor_simps [simp]:
  "sample_at_least_floor (Note t m st)"
  "task_floor task \<le> a \<Longrightarrow> sample_at_least_floor (Sample t task (max a x) ex st)"
  by (simp_all add: sample_at_least_floor_def)

lemma handle_event_log:
  "handle_event z ev v s = Inr (v', s') \<Longrightarrow>
   list_all sample_at_least_floor (event_log v) \<Longrightarrow>
   list_all sample_at_least_floor (event_log v')"
  by (auto simp: handler_defs
           split: EventType.splits sum.splits option.splits prod.splits if_splits)


lemmas eval_defs =
  run_def run_body_def get_next_event_def truthy_def heappop_def heappush_def siftup_def
  siftdown_def siftdown_loop.simps siftup_loop.simps event_lt_def handler_defs
  schedule_event_def log_append_def history_append_def dict_get_def py_float_def
  pyval_of_index_def sim_A_def vessel_A_def start_work_def Simulation_init_def TSHD_init_def
  TSHDConfig_default_def allocate_def next_segment_with_work_def

section \<open>Invariants of the run loop\<close>

lemma after_pop_simps [simp]:
  "event_queue (after_pop sim e q) = q"
  "clock (after_pop sim e q) = time e"
  "entities (after_pop sim e q) = entities sim"
  "running (after_pop sim e q) = running sim"
  "segment_manager (after_pop sim e q) = segment_manager sim"
  "rng_pos (after_pop sim e q) = rng_pos sim"
  "printed (after_pop sim e q) = printed sim"
  "events_processed (statistics (after_pop sim e q)) = events_processed (statistics sim) + 1"
  by (simp_all add: after_pop_def)

lemma run_body_cases [consumes 1, case_names beyond unknown handled raised]:
  assumes ne: "event_queue sim \<noteq> []"
  obtains
    (beyond) e q t where "heappop (event_queue sim) = Inr (e, q)" "end_time = Some t" "t \<noteq> 0"
      "time e > t"
      "run_body z end_time sim = Break (sim\<lparr>event_queue := heappush q e, clock := t\<rparr>)"
  | (unknown) e q where "heappop (event_queue sim) = Inr (e, q)"
      "\<not> (truthy end_time \<and> time e > the end_time)" "entities sim (entity_id e) = None"
      "run_body z end_time sim =
         Continue ((after_pop sim e q)\<lparr>printed := printed sim @ [warning e]\<rparr>)"
  | (handled) e q v v' s' where "heappop (event_queue sim) = Inr (e, q)"
      "\<not> (truthy end_time \<and> time e > the end_time)" "entities sim (entity_id e) = Some v"
      "handle_event z e v (after_pop sim e q) = Inr (v', s')"
      "run_body z end_time sim = Continue (s'\<lparr>entities := (entities s')(entity_id e \<mapsto> v')\<rparr>)"
  | (raised) e q v err where "heappop (event_queue sim) = Inr (e, q)"
      "\<not> (truthy end_time \<and> time e > the end_time)" "entities sim (entity_id e) = Some v"
      "handle_event z e v (after_pop sim e q) = Inl err"
      "run_body z end_time sim = Raise err"
proof -
  from heappop_total [OF ne] obtain e q where pop: "heappop (event_queue sim) = Inr (e, q)"
    by blast
  note g = get_next_event_pop [OF pop]
  show thesis
  proof (cases "truthy end_time \<and> time e > the end_time")
    case True
    then obtain t where t: "end_time = Some t" "t \<noteq> 0" "time e > t"
      by (auto simp: truthy_def split: option.splits)
    then have "run_body z end_time sim = Break (sim\<lparr>event_queue := heappush q e, clock := t\<rparr>)"
      using pop by (simp add: run_body_beyond_horizon)
    with pop t show thesis by (rule beyond)
  next
    case within: False
    show thesis
    proof (cases "entities sim (entity_id e)")
      case None
      have "run_body z end_time sim =
         Continue ((after_pop sim e q)\<lparr>printed := printed sim @ [warning e]\<rparr>)"
        using run_body_unknown [OF pop within None, of z] by (simp add: after_pop_def)
      with pop within None show thesis by (rule unknown)
    next
      case (Some v)
      show thesis
      proof (cases "handle_event z e v (after_pop sim e q)")
        case (Inl err)
        then have "run_body z end_time sim = Raise err"
          using within Some by (simp add: run_body_def g Let_def after_pop_def)
        with pop within Some Inl show thesis by (rule raised)
      next
        case (Inr r)
        obtain v' s' where r: "r = (v', s')" by (cases r)
        have "run_body z end_time sim =
            Continue (s'\<lparr>entities := (entities s')(entity_id e \<mapsto> v')\<rparr>)"
          using within Some Inr r by (simp add: run_body_def g Let_def after_pop_def)
        with pop within Some Inr r show thesis by (auto intro: handled)
      qed
    qed
  qed
qed


lemma run_loop_invariant:
  assumes init: "I sim"
    and cont: "\<And>s s'. I s \<Longrightarrow> event_queue s \<noteq> [] \<Longrightarrow> run_body z end_time s = Continue s' \<Longrightarrow> I s'"
    and brk: "\<And>s s'. I s \<Longrightarrow> event_queue s \<noteq> [] \<Longrightarrow> run_body z end_time s = Break s' \<Longrightarrow> I s'"
    and res: "run_loop n z end_time sim = Some (Inr sim')"
  shows "I sim'"
  using init res
proof (induction n arbitrary: sim)
  case 0
  then show ?case by simp
next
  case (Suc n)
  show ?case
  proof (cases "event_queue sim \<noteq> [] \<and> running sim")
    case False
    with Suc.prems show ?thesis by auto
  next
    case True
    show ?thesis
    proof (cases "run_body z end_time sim")
      case (Continue s1)
      then have "run_loop n z end_time s1 = Some (Inr sim')"
        using True Suc.prems(2) by simp
      moreover have "I s1" using cont Suc.prems(1) True Continue by blast
      ultimately show ?thesis by (rule Suc.IH [rotated])
    next
      case (Break s1)
      then have "sim' = s1" using True Suc.prems(2) by simp
      then show ?thesis using brk Suc.prems(1) True Break by blast
    next
      case (Raise e)
      then show ?thesis using True Suc.prems(2) by simp
    qed
  qed
qed

lemma ran_upd_cases: "x \<in> ran (m(k \<mapsto> y)) \<Longrightarrow> x = y \<or> x \<in> ran m"
  by (auto simp: ran_def split: if_splits)

lemma run_body_logs:
  assumes ok: "logs_at_least_floor s" and ne: "event_queue s \<noteq> []"
    and r: "run_body z end_time s = Continue s' \<or> run_body z end_time s = Break s'"
  shows "logs_at_least_floor s'"
  using ne
proof (cases rule: run_body_cases [where end_time = end_time and z = z])
  case (beyond e q t)
  then show ?thesis using ok r by (auto simp: logs_at_least_floor_def)
next
  case (unknown e q)
  then show ?thesis using ok r by (auto simp: logs_at_least_floor_def)
next
  case (handled e q v v' s1)
  have v: "list_all sample_at_least_floor (event_log v)"
    using ok handled(3) by (auto simp: logs_at_least_floor_def ran_def)
  have v': "list_all sample_at_least_floor (event_log v')"
    by (rule handle_event_log [OF handled(4) v])
  have e: "entities s1 = entities s"
    using handle_event_frame [OF handled(4)] by simp
  have "s' = s1\<lparr>entities := (entities s1)(entity_id e \<mapsto> v')\<rparr>"
    using r handled(5) by simp
  then show ?thesis
    using ok v' e by (auto simp: logs_at_least_floor_def dest!: ran_upd_cases)
next
  case (raised e q v err)
  then show ?thesis using r by simp
qed

section \<open>The return leg\<close>

text \<open>
  Claim C3 on a cycle whose outbound distance comes from the allocator. The event
  \<open>DUMPING_COMPLETE\<close> that \<open>_complete_move_to_da\<close> schedules carries only
  \<open>actual_dumping_time\<close>, so \<open>_complete_dumping\<close> falls back to \<open>config.distance_back\<close>:
  the outbound leg is sampled for 4 miles (mean 0.4 h), the return leg for the configured
  5 miles (mean 0.5 h).
\<close>

theorem return_leg_uses_configured_distance:
  "samples_of (log_after (run 9 (\<lambda>_. 0) (Some 3) sim_far) ''A'') =
     [Sample 0 ''dredging'' 2 [(''volume_m3'', PFloat 5000), (''segment'', PInt 3)] DREDGING,
      Sample 2 ''moving_to_da'' (2 / 5)
        [(''distance_nm'', PFloat 4), (''segment'', PInt 3)] MOVING_TO_DA,
      Sample (12 / 5) ''dumping'' (1 / 2) [] DUMPING,
      Sample (29 / 10) ''moving_back'' (1 / 2) [(''distance_nm'', PFloat 5)] MOVING_BACK]"
  by code_simp

section \<open>The clock\<close>

lemma handle_event_heap_ok:
  "handle_event z ev v s = Inr (v', s') \<Longrightarrow> heap_ok (event_queue s) \<Longrightarrow>
   heap_ok (event_queue s')"
  by (auto simp: handler_defs heap_ok_heappush
           split: EventType.splits sum.splits option.splits prod.splits if_splits)

lemma mset_diff_cases: "x \<in># A \<Longrightarrow> x \<in># B \<or> x \<in># A - B"
  by (metis count_greater_zero_iff in_diff_count not_in_iff)

lemma heap_ok_min_set:
  assumes "heap_ok h" and "heappop h = Inr (e, q)" and "x \<in> set h"
  shows "time e \<le> time x"
proof -
  from assms(3) obtain i where "i < length h" "x = h ! i" by (auto simp: in_set_conv_nth)
  then show ?thesis using heap_ok_min [OF assms(1)] heappop_facts(2) [OF assms(2)] by simp
qed

lemma queue_not_before_clock_iff:
  "queue_not_before_clock s \<longleftrightarrow> (\<forall>e \<in> set (event_queue s). clock s \<le> time e)"
  by (simp add: queue_not_before_clock_def list_all_iff)

lemma run_body_clock:
  assumes h: "heap_ok (event_queue s)" and f: "queue_not_before_clock s"
    and b: "bound_not_before_clock end_time s" and ne: "event_queue s \<noteq> []"
    and r: "run_body z end_time s = Continue s' \<or> run_body z end_time s = Break s'"
  shows "clock s \<le> clock s' \<and> heap_ok (event_queue s') \<and> queue_not_before_clock s' \<and>
         bound_not_before_clock end_time s'"
  using ne
proof (cases rule: run_body_cases [where end_time = end_time and z = z])
  case (beyond e q t)
  note p = heappop_facts [OF beyond(1)]
  have s': "s' = s\<lparr>event_queue := heappush q e, clock := t\<rparr>" using r beyond(5) by simp
  have min: "\<And>x. x \<in> set (event_queue s) \<Longrightarrow> time e \<le> time x"
    using heap_ok_min_set [OF h beyond(1)] .
  have "clock s \<le> t" using b beyond(2,3) by (simp add: bound_not_before_clock_def)
  moreover have "heap_ok (heappush q e)"
    using heap_ok_heappop [OF h beyond(1)] by (rule heap_ok_heappush)
  moreover have "\<forall>x \<in> set (heappush q e). t \<le> time x"
    using min p(4,5) beyond(4) by fastforce
  ultimately show ?thesis
    using beyond(2) by (simp add: s' queue_not_before_clock_iff bound_not_before_clock_def)
next
  case (unknown e q)
  note p = heappop_facts [OF unknown(1)]
  have s': "s' = (after_pop s e q)\<lparr>printed := printed s @ [warning e]\<rparr>"
    using r unknown(4) by simp
  have min: "\<And>x. x \<in> set (event_queue s) \<Longrightarrow> time e \<le> time x"
    using heap_ok_min_set [OF h unknown(1)] .
  have "clock s \<le> time e" using f p(4) by (simp add: queue_not_before_clock_iff)
  moreover have "heap_ok q" by (rule heap_ok_heappop [OF h unknown(1)])
  moreover have "\<forall>x \<in> set q. time e \<le> time x" using min p(5) by blast
  moreover have "bound_not_before_clock end_time s'"
    using unknown(2) by (auto simp: s' bound_not_before_clock_def truthy_def split: option.splits)
  ultimately show ?thesis by (simp add: s' queue_not_before_clock_iff)
next
  case (handled e q v v' s1)
  note p = heappop_facts [OF handled(1)]
  note fr = handle_event_frame [OF handled(4)]
  note qu = handle_event_queue [OF handled(4)]
  have s': "s' = s1\<lparr>entities := (entities s1)(entity_id e \<mapsto> v')\<rparr>"
    using r handled(5) by simp
  have min: "\<And>x. x \<in> set (event_queue s) \<Longrightarrow> time e \<le> time x"
    using heap_ok_min_set [OF h handled(1)] .
  have c: "clock s1 = time e" using fr by simp
  have "clock s \<le> time e" using f p(4) by (simp add: queue_not_before_clock_iff)
  moreover have "heap_ok (event_queue s1)"
    using handle_event_heap_ok [OF handled(4)] heap_ok_heappop [OF h handled(1)] by simp
  moreover have "time e \<le> time x" if "x \<in> set (event_queue s1)" for x
  proof -
    from that have "x \<in># mset (event_queue s1)" by simp
    then have "x \<in># mset q \<or> x \<in># mset (event_queue s1) - mset q"
      by (rule mset_diff_cases)
    then show ?thesis
    proof
      assume "x \<in># mset q"
      then show ?thesis using min p(5) by auto
    next
      assume "x \<in># mset (event_queue s1) - mset q"
      then show ?thesis using qu by simp
    qed
  qed
  moreover have "bound_not_before_clock end_time s'"
    using handled(2) c by (auto simp: s' bound_not_before_clock_def truthy_def split: option.splits)
  ultimately show ?thesis using c by (simp add: s' queue_not_before_clock_iff)
next
  case (raised e q v err)
  then show ?thesis using r by simp
qed


lemma run_clock:
  assumes h: "heap_ok (event_queue sim)" and f: "queue_not_before_clock sim"
    and b: "bound_not_before_clock end_time sim"
    and r: "run fuel z end_time sim = Some (Inr sim')"
  shows "clock sim \<le> clock sim' \<and> heap_ok (event_queue sim') \<and> queue_not_before_clock sim'"
proof -
  let ?I = "\<lambda>s. clock sim \<le> clock s \<and> heap_ok (event_queue s) \<and> queue_not_before_clock s \<and>
                 bound_not_before_clock end_time s"
  from r obtain s1 where s1: "run_loop fuel z end_time (sim\<lparr>running := True\<rparr>) = Some (Inr s1)"
    and sim': "sim' = s1\<lparr>running := False\<rparr>"
    by (auto simp: run_def split: option.splits sum.splits)
  have i0: "?I (sim\<lparr>running := True\<rparr>)"
    using h f b
    by (auto simp: queue_not_before_clock_def bound_not_before_clock_def split: option.splits)
  have step: "?I s'" if "?I s" "event_queue s \<noteq> []"
      "run_body z end_time s = Continue s' \<or> run_body z end_time s = Break s'" for s s'
    using run_body_clock [of s end_time z s'] that by auto
  have "?I s1"
    by (rule run_loop_invariant [where I = ?I, OF i0 _ _ s1]) (use step in blast)+
  then show ?thesis
    by (simp add: sim' queue_not_before_clock_def)
qed

text \<open>
  Claim C2, as the code has it. \<open>run\<close> assigns the clock the time of the popped event or
  the bound, whatever the current clock is. The clock is non-decreasing when the queue
  is the heap that \<open>schedule_event\<close> builds, no queued event is earlier than the clock, and
  the bound of the call is not below the clock: then every pass through the loop body and
  the capping at the bound leave the clock at or above its value, and the queue still
  holds no event earlier than the clock, also after the handlers have scheduled their
  follow-up events. A fresh engine satisfies the condition, and \<open>schedule_event\<close> keeps it
  for an event that is not earlier than the clock.
\<close>

theorem clock_never_regresses:
  "(heap_ok (event_queue sim) \<and> queue_not_before_clock sim \<and>
    bound_not_before_clock end_time sim \<and> event_queue sim \<noteq> [] \<and>
    (run_body z end_time sim = Continue sim' \<or> run_body z end_time sim = Break sim') \<longrightarrow>
      clock sim \<le> clock sim' \<and> heap_ok (event_queue sim') \<and> queue_not_before_clock sim' \<and>
      bound_not_before_clock end_time sim') \<and>
   (heap_ok (event_queue sim) \<and> queue_not_before_clock sim \<and>
    bound_not_before_clock end_time sim \<and> run fuel z end_time sim = Some (Inr sim'') \<longrightarrow>
      clock sim \<le> clock sim'' \<and> heap_ok (event_queue sim'') \<and> queue_not_before_clock sim'') \<and>
   (heap_ok (event_queue sim) \<and> queue_not_before_clock sim \<and> clock sim \<le> time e \<longrightarrow>
      clock (schedule_event sim e) = clock sim \<and> heap_ok (event_queue (schedule_event sim e)) \<and>
      queue_not_before_clock (schedule_event sim e)) \<and>
   heap_ok (event_queue Simulation_init) \<and> queue_not_before_clock Simulation_init"
proof (intro conjI impI)
  assume a: "heap_ok (event_queue sim) \<and> queue_not_before_clock sim \<and>
    bound_not_before_clock end_time sim \<and> event_queue sim \<noteq> [] \<and>
    (run_body z end_time sim = Continue sim' \<or> run_body z end_time sim = Break sim')"
  then have "clock sim \<le> clock sim' \<and> heap_ok (event_queue sim') \<and>
      queue_not_before_clock sim' \<and> bound_not_before_clock end_time sim'"
    by (intro run_body_clock [of sim end_time z sim']) auto
  then show "clock sim \<le> clock sim'" "heap_ok (event_queue sim')"
    "queue_not_before_clock sim'" "bound_not_before_clock end_time sim'" by auto
next
  assume a: "heap_ok (event_queue sim) \<and> queue_not_before_clock sim \<and>
    bound_not_before_clock end_time sim \<and> run fuel z end_time sim = Some (Inr sim'')"
  then have "clock sim \<le> clock sim'' \<and> heap_ok (event_queue sim'') \<and>
      queue_not_before_clock sim''"
    by (intro run_clock [of sim end_time fuel z sim'']) auto
  then show "clock sim \<le> clock sim''" "heap_ok (event_queue sim'')"
    "queue_not_before_clock sim''" by auto
next
  assume a: "heap_ok (event_queue sim) \<and> queue_not_before_clock sim \<and> clock sim \<le> time e"
  show "clock (schedule_event sim e) = clock sim" by simp
  show "heap_ok (event_queue (schedule_event sim e))" using a by (simp add: heap_ok_heappush)
  show "queue_not_before_clock (schedule_event sim e)"
    using a by (simp add: queue_not_before_clock_iff)
next
  show "heap_ok (event_queue Simulation_init)"
    by (simp add: Simulation_init_def heap_ok_def)
  show "queue_not_before_clock Simulation_init"
    by (simp add: Simulation_init_def queue_not_before_clock_def)
qed

theorem clock_never_regresses_witness:
  "heap_ok (event_queue sim_A) \<and> queue_not_before_clock sim_A \<and>
   bound_not_before_clock (Some 1) sim_A \<and> clock sim_A = 0 \<and>
   (\<exists>sim'. run 3 (\<lambda>_. 0) (Some 1) sim_A = Some (Inr sim') \<and> clock sim' = 1 \<and>
      clock sim_A \<le> clock sim' \<and> heap_ok (event_queue sim') \<and> queue_not_before_clock sim')"
proof -
  have q: "event_queue sim_A =
      [\<lparr>time = 0, event_type = DREDGING_START, entity_id = ''A'', data = []\<rparr>]"
      "clock sim_A = 0"
    by (simp_all add: sim_A_def start_work_def Simulation_init_def vessel_A_def TSHD_init_def
          schedule_event_def)
  have a: "heap_ok (event_queue sim_A)" "queue_not_before_clock sim_A"
    "bound_not_before_clock (Some 1) sim_A"
    by (simp_all add: q heap_ok_def queue_not_before_clock_def bound_not_before_clock_def)
  have "\<exists>sim'. run 3 (\<lambda>_. 0) (Some 1) sim_A = Some (Inr sim') \<and> clock sim' = 1"
    by (simp add: eval_defs numeral_3_eq_3)
  then obtain sim' where r: "run 3 (\<lambda>_. 0) (Some 1) sim_A = Some (Inr sim')" "clock sim' = 1"
    by blast
  from clock_never_regresses [of sim_A "Some 1" "\<lambda>_. 0" sim' 3 sim'' e for sim'' e]
  have "clock sim_A \<le> clock sim' \<and> heap_ok (event_queue sim') \<and> queue_not_before_clock sim'"
    using a r by blast
  with a q r show ?thesis by blast
qed

text \<open>
  An event is queued for time 12; \<open>run(10)\<close> caps the clock at 10, and \<open>run(5)\<close> on the same
  engine then sets it to 5.
\<close>

theorem clock_regresses_counterexample:
  "\<exists>s1 s2. run 2 (\<lambda>_. 0) (Some 10) sim_late = Some (Inr s1) \<and> clock s1 = 10 \<and>
           run 2 (\<lambda>_. 0) (Some 5) s1 = Some (Inr s2) \<and> clock s2 = 5 \<and> clock s2 < clock s1"
  by (simp add: eval_defs sim_late_def ghost_event_def numeral_2_eq_2)

section \<open>The dredged volume\<close>

lemma logged_volume_simps [simp]:
  "logged_volume [] = 0"
  "logged_volume (xs @ ys) = logged_volume xs + logged_volume ys"
  "logged_volume (x # xs) = sample_volume x + logged_volume xs"
  by (simp_all add: logged_volume_def)

lemma sample_volume_simps [simp]:
  "sample_volume (Note t m st) = 0"
  "sample_volume (Sample t ''dredging'' d ((''volume_m3'', PFloat a) # ex) st) = a"
  "sample_volume (Sample t ''moving_to_da'' d ex st) = 0"
  "sample_volume (Sample t ''dumping'' d ex st) = 0"
  "sample_volume (Sample t ''moving_back'' d ex st) = 0"
  by (simp_all add: sample_volume_def)

lemma pending_volume_mset:
  "pending_volume cfg eid q =
     sum_mset (image_mset (\<lambda>e. if entity_id e = eid then event_loaded cfg e else 0) (mset q))"
  by (simp add: pending_volume_def flip: sum_mset_sum_list)

lemma pending_volume_heappush [simp]:
  "pending_volume cfg eid (heappush q e) =
     (if entity_id e = eid then event_loaded cfg e else 0) + pending_volume cfg eid q"
  by (simp add: pending_volume_mset)

lemma pending_volume_heappop:
  "heappop h = Inr (e, q) \<Longrightarrow>
   pending_volume cfg eid h =
     (if entity_id e = eid then event_loaded cfg e else 0) + pending_volume cfg eid q"
  by (simp add: pending_volume_mset heappop_facts(1))

lemma event_loaded_simps [simp]:
  "event_loaded cfg \<lparr>time = t, event_type = DREDGING_COMPLETE, entity_id = i,
      data = (''actual_dredging_time'', x) # (''allocated_volume_m3'', PFloat a) # d\<rparr> = a"
  "event_loaded cfg \<lparr>time = t, event_type = DREDGING_START, entity_id = i, data = d\<rparr> = 0"
  "event_loaded cfg \<lparr>time = t, event_type = MOVE_TO_DA_START, entity_id = i, data = d\<rparr> = 0"
  "event_loaded cfg \<lparr>time = t, event_type = MOVE_TO_DA_COMPLETE, entity_id = i, data = d\<rparr> = 0"
  "event_loaded cfg \<lparr>time = t, event_type = DUMPING_START, entity_id = i, data = d\<rparr> = 0"
  "event_loaded cfg \<lparr>time = t, event_type = DUMPING_COMPLETE, entity_id = i, data = d\<rparr> = 0"
  "event_loaded cfg \<lparr>time = t, event_type = MOVE_BACK_START, entity_id = i, data = d\<rparr> = 0"
  "event_loaded cfg \<lparr>time = t, event_type = MOVE_BACK_COMPLETE, entity_id = i, data = d\<rparr> = 0"
  by (simp_all add: event_loaded_def dict_get_def py_float_def)

lemma handle_event_total:
  "handle_event z ev v s = Inr (v', s') \<Longrightarrow>
   total_dredged v' = total_dredged v + event_loaded (config v) ev"
  by (auto simp: handler_defs event_loaded_def
           split: EventType.splits sum.splits option.splits prod.splits if_splits)

lemma handle_event_pending:
  "handle_event z ev v s = Inr (v', s') \<Longrightarrow>
   pending_volume c k (event_queue s') =
     pending_volume c k (event_queue s) +
     (if k = vessel_id v then logged_volume (event_log v') - logged_volume (event_log v) else 0)"
  by (auto simp: handler_defs
           split: EventType.splits sum.splits option.splits prod.splits if_splits)

lemma handle_event_nonneg:
  "handle_event z ev v s = Inr (v', s') \<Longrightarrow> 0 \<le> hopper_capacity (config v) \<Longrightarrow>
   \<forall>e. e \<in># mset (event_queue s') - mset (event_queue s) \<longrightarrow> 0 \<le> event_loaded c e"
  by (auto simp: handler_defs
           split: EventType.splits sum.splits option.splits prod.splits if_splits)


lemma volume_accountedD:
  assumes "volume_accounted s" and "entities s eid = Some v"
  shows "vessel_id v = eid" and "0 \<le> hopper_capacity (config v)"
    and "logged_volume (event_log v) = total_dredged v + pending_volume (config v) eid (event_queue s)"
    and "\<And>e. e \<in> set (event_queue s) \<Longrightarrow> entity_id e = eid \<Longrightarrow> 0 \<le> event_loaded (config v) e"
  using assms by (auto simp: volume_accounted_def)

lemma run_body_volume:
  assumes inv: "volume_accounted s" and ne: "event_queue s \<noteq> []"
    and r: "run_body z end_time s = Continue s' \<or> run_body z end_time s = Break s'"
  shows "volume_accounted s' \<and>
         (\<forall>eid v. entities s eid = Some v \<longrightarrow>
            (\<exists>v'. entities s' eid = Some v' \<and> total_dredged v \<le> total_dredged v'))"
  using ne
proof (cases rule: run_body_cases [where end_time = end_time and z = z])
  case (beyond e q t)
  note p = heappop_facts [OF beyond(1)]
  have s': "s' = s\<lparr>event_queue := heappush q e, clock := t\<rparr>" using r beyond(5) by simp
  have "pending_volume c k (heappush q e) = pending_volume c k (event_queue s)" for c k
    by (simp add: pending_volume_heappop [OF beyond(1)])
  moreover have "set (heappush q e) = set (event_queue s)"
    using p(4,5) p(1) by (metis set_heappush set_mset_add_mset_insert set_mset_mset)
  ultimately show ?thesis using inv by (simp add: s' volume_accounted_def)
next
  case (unknown e q)
  note p = heappop_facts [OF unknown(1)]
  have s': "s' = (after_pop s e q)\<lparr>printed := printed s @ [warning e]\<rparr>"
    using r unknown(4) by simp
  have "pending_volume (config v) k q = pending_volume (config v) k (event_queue s)"
    if "entities s k = Some v" for k v
    using that unknown(3) by (auto simp: pending_volume_heappop [OF unknown(1)])
  then show ?thesis using inv p(5) by (auto simp: s' volume_accounted_def)
next
  case (handled e q v v' s1)
  note p = heappop_facts [OF handled(1)]
  note fr = handle_event_frame [OF handled(4)]
  note qu = handle_event_queue [OF handled(4)]
  note d = volume_accountedD [OF inv handled(3)]
  have s': "s' = s1\<lparr>entities := (entities s1)(entity_id e \<mapsto> v')\<rparr>"
    using r handled(5) by simp
  have ent: "entities s1 = entities s" using fr by simp
  have tot: "total_dredged v' = total_dredged v + event_loaded (config v) e"
    by (rule handle_event_total [OF handled(4)])
  have pend: "pending_volume c k (event_queue s1) =
     pending_volume c k q +
     (if k = vessel_id v then logged_volume (event_log v') - logged_volume (event_log v) else 0)"
    for c k
    using handle_event_pending [OF handled(4), of c k] by simp
  have ge: "0 \<le> event_loaded (config v) e" using d(4) [of e] p(4) by simp
  have old_or_new: "x \<in> set q \<or> x \<in># mset (event_queue s1) - mset q"
    if "x \<in> set (event_queue s1)" for x
    using mset_diff_cases [of x "mset (event_queue s1)" "mset q"] that by simp
  have acc: "vessel_id w = k \<and> 0 \<le> hopper_capacity (config w) \<and>
        logged_volume (event_log w) =
          total_dredged w + pending_volume (config w) k (event_queue s1) \<and>
        (\<forall>x \<in> set (event_queue s1). entity_id x = k \<longrightarrow> 0 \<le> event_loaded (config w) x)"
    if w: "((entities s)(entity_id e \<mapsto> v')) k = Some w" for k w
  proof (cases "k = entity_id e")
    case True
    then have w': "w = v'" using w by simp
    have "logged_volume (event_log v') =
        total_dredged v' + pending_volume (config v') k (event_queue s1)"
      using d(1,3) tot pend [of "config v" k] fr True
      by (simp add: pending_volume_heappop [OF handled(1)])
    moreover have "0 \<le> event_loaded (config v') x"
      if "x \<in> set (event_queue s1)" "entity_id x = k" for x
    proof -
      from old_or_new [OF that(1)] show ?thesis
      proof
        assume "x \<in> set q"
        then show ?thesis using d(4) [of x] p(5) that(2) True fr by auto
      next
        assume "x \<in># mset (event_queue s1) - mset q"
        then show ?thesis
          using handle_event_nonneg [OF handled(4), of "config v'"] d(2) fr by simp
      qed
    qed
    ultimately show ?thesis using d(1,2) fr True by (simp add: w')
  next
    case False
    then have w0: "entities s k = Some w" using w by simp
    note dw = volume_accountedD [OF inv w0]
    have "pending_volume (config w) k (event_queue s1) = pending_volume (config w) k (event_queue s)"
      using pend [of "config w" k] False d(1)
      by (simp add: pending_volume_heappop [OF handled(1)])
    moreover have "0 \<le> event_loaded (config w) x"
      if "x \<in> set (event_queue s1)" "entity_id x = k" for x
    proof -
      from old_or_new [OF that(1)] show ?thesis
      proof
        assume "x \<in> set q"
        then show ?thesis using dw(4) [of x] p(5) that(2) by auto
      next
        assume "x \<in># mset (event_queue s1) - mset q"
        then have "entity_id x = vessel_id v" using qu by simp
        then show ?thesis using that(2) False d(1) by simp
      qed
    qed
    ultimately show ?thesis using dw by simp
  qed
  have mono: "\<exists>w'. ((entities s)(entity_id e \<mapsto> v')) k = Some w' \<and> total_dredged w \<le> total_dredged w'"
    if "entities s k = Some w" for k w
    using that handled(3) tot ge by (cases "k = entity_id e") auto
  show ?thesis
    using acc mono by (simp add: s' ent volume_accounted_def)
next
  case (raised e q v err)
  then show ?thesis using r by simp
qed


lemma run_volume:
  assumes inv: "volume_accounted sim" and r: "run fuel z end_time sim = Some (Inr sim')"
  shows "volume_accounted sim' \<and>
         (\<forall>eid v. entities sim eid = Some v \<longrightarrow>
            (\<exists>v'. entities sim' eid = Some v' \<and> total_dredged v \<le> total_dredged v'))"
proof -
  let ?I = "\<lambda>s. volume_accounted s \<and>
         (\<forall>eid v. entities sim eid = Some v \<longrightarrow>
            (\<exists>v'. entities s eid = Some v' \<and> total_dredged v \<le> total_dredged v'))"
  from r obtain s1 where s1: "run_loop fuel z end_time (sim\<lparr>running := True\<rparr>) = Some (Inr s1)"
    and sim': "sim' = s1\<lparr>running := False\<rparr>"
    by (auto simp: run_def split: option.splits sum.splits)
  have i0: "?I (sim\<lparr>running := True\<rparr>)"
    using inv by (simp add: volume_accounted_def)
  have step: "?I s'" if i: "?I s" and ne: "event_queue s \<noteq> []"
      and b: "run_body z end_time s = Continue s' \<or> run_body z end_time s = Break s'" for s s'
  proof -
    from i have va: "volume_accounted s" by simp
    note st = run_body_volume [OF va ne b]
    have "\<exists>v''. entities s' eid = Some v'' \<and> total_dredged v \<le> total_dredged v''"
      if "entities sim eid = Some v" for eid v
    proof -
      from i that obtain v' where v': "entities s eid = Some v'" "total_dredged v \<le> total_dredged v'"
        by blast
      with st obtain v'' where "entities s' eid = Some v''" "total_dredged v' \<le> total_dredged v''"
        by blast
      with v' show ?thesis by force
    qed
    with st show ?thesis by blast
  qed
  have "?I s1"
    by (rule run_loop_invariant [where I = ?I, OF i0 _ _ s1]) (use step in blast)+
  then show ?thesis
    by (simp add: sim' volume_accounted_def)
qed

lemma pending_volume_none:
  "\<forall>e \<in> set q. \<not> (event_type e = DREDGING_COMPLETE \<and> entity_id e = eid) \<Longrightarrow>
   pending_volume cfg eid q = 0"
  by (induction q) (auto simp: pending_volume_def event_loaded_def)

text \<open>
  Claim C5, as the code has it. \<open>_start_dredging\<close> records the dredging sample with its
  volume when dredging starts, and \<open>_complete_dredging\<close> adds that volume to
  \<open>total_dredged\<close> when the \<open>DREDGING_COMPLETE\<close> event is handled. On an engine whose vessels
  are registered under their own ids with non-negative hopper capacities, at every pass
  of the run loop and when \<open>run\<close> returns: \<open>total_dredged\<close> of every vessel has not
  decreased, and the volumes of its dredging samples add up to \<open>total_dredged\<close> plus the
  volume of its dredge in progress (its queued \<open>DREDGING_COMPLETE\<close> events); the two are
  equal whenever no \<open>DREDGING_COMPLETE\<close> event of the vessel is queued.
\<close>

theorem total_dredged_accounting:
  "(volume_accounted sim \<and> event_queue sim \<noteq> [] \<and>
    (run_body z end_time sim = Continue sim' \<or> run_body z end_time sim = Break sim') \<longrightarrow>
      volume_accounted sim' \<and>
      (\<forall>eid v. entities sim eid = Some v \<longrightarrow>
         (\<exists>v'. entities sim' eid = Some v' \<and> total_dredged v \<le> total_dredged v'))) \<and>
   (volume_accounted sim \<and> run fuel z end_time sim = Some (Inr sim'') \<longrightarrow>
      volume_accounted sim'' \<and>
      (\<forall>eid v. entities sim eid = Some v \<longrightarrow>
         (\<exists>v'. entities sim'' eid = Some v' \<and> total_dredged v \<le> total_dredged v'))) \<and>
   (volume_accounted sim \<and> entities sim eid = Some v \<longrightarrow>
      logged_volume (event_log v) =
        total_dredged v + pending_volume (config v) eid (event_queue sim)) \<and>
   (volume_accounted sim \<and> entities sim eid = Some v \<and>
    (\<forall>e \<in> set (event_queue sim). \<not> (event_type e = DREDGING_COMPLETE \<and> entity_id e = eid)) \<longrightarrow>
      logged_volume (event_log v) = total_dredged v)"
proof (intro conjI impI)
  assume "volume_accounted sim \<and> event_queue sim \<noteq> [] \<and>
    (run_body z end_time sim = Continue sim' \<or> run_body z end_time sim = Break sim')"
  then have "volume_accounted sim' \<and>
      (\<forall>eid v. entities sim eid = Some v \<longrightarrow>
         (\<exists>v'. entities sim' eid = Some v' \<and> total_dredged v \<le> total_dredged v'))"
    by (intro run_body_volume [of sim z end_time sim']) auto
  then show "volume_accounted sim'"
    "\<forall>eid v. entities sim eid = Some v \<longrightarrow>
         (\<exists>v'. entities sim' eid = Some v' \<and> total_dredged v \<le> total_dredged v')"
    by auto
next
  assume "volume_accounted sim \<and> run fuel z end_time sim = Some (Inr sim'')"
  then have "volume_accounted sim'' \<and>
      (\<forall>eid v. entities sim eid = Some v \<longrightarrow>
         (\<exists>v'. entities sim'' eid = Some v' \<and> total_dredged v \<le> total_dredged v'))"
    by (intro run_volume [of sim fuel z end_time sim'']) auto
  then show "volume_accounted sim''"
    "\<forall>eid v. entities sim eid = Some v \<longrightarrow>
         (\<exists>v'. entities sim'' eid = Some v' \<and> total_dredged v \<le> total_dredged v')"
    by auto
next
  assume "volume_accounted sim \<and> entities sim eid = Some v"
  then show "logged_volume (event_log v) =
        total_dredged v + pending_volume (config v) eid (event_queue sim)"
    using volume_accountedD(3) by blast
next
  assume a: "volume_accounted sim \<and> entities sim eid = Some v \<and>
    (\<forall>e \<in> set (event_queue sim). \<not> (event_type e = DREDGING_COMPLETE \<and> entity_id e = eid))"
  then have "pending_volume (config v) eid (event_queue sim) = 0"
    by (intro pending_volume_none) auto
  then show "logged_volume (event_log v) = total_dredged v"
    using a volume_accountedD(3) [of sim eid v] by simp
qed

theorem total_dredged_accounting_witness:
  "volume_accounted sim_A \<and> entities sim_A ''A'' = Some vessel_A \<and>
   logged_volume (event_log vessel_A) = total_dredged vessel_A \<and>
   (\<exists>sim' v'. run 3 (\<lambda>_. 0) (Some 1) sim_A = Some (Inr sim') \<and> volume_accounted sim' \<and>
      entities sim' ''A'' = Some v' \<and> total_dredged vessel_A \<le> total_dredged v' \<and>
      logged_volume (event_log v') =
        total_dredged v' + pending_volume (config v') ''A'' (event_queue sim'))"
proof -
  have q: "event_queue sim_A =
      [\<lparr>time = 0, event_type = DREDGING_START, entity_id = ''A'', data = []\<rparr>]"
      "entities sim_A = [''A'' \<mapsto> vessel_A]"
    by (simp_all add: sim_A_def start_work_def Simulation_init_def vessel_A_def TSHD_init_def
          schedule_event_def)
  have va: "volume_accounted sim_A"
    by (simp add: volume_accounted_def q pending_volume_def)
       (simp add: vessel_A_def TSHD_init_def TSHDConfig_default_def)
  have e: "entities sim_A ''A'' = Some vessel_A" by (simp add: q)
  have "\<exists>sim'. run 3 (\<lambda>_. 0) (Some 1) sim_A = Some (Inr sim')"
    by (simp add: eval_defs numeral_3_eq_3)
  then obtain sim' where r: "run 3 (\<lambda>_. 0) (Some 1) sim_A = Some (Inr sim')" by blast
  note t = total_dredged_accounting [of sim_A "\<lambda>_. 0" "Some 1" sim' 3 sim' "''A''" vessel_A]
  from t va e r obtain v' where v': "entities sim' ''A'' = Some v'"
      "total_dredged vessel_A \<le> total_dredged v'" and va': "volume_accounted sim'"
    by blast
  from total_dredged_accounting [of sim' "\<lambda>_. 0" "Some 1" sim' 3 sim' "''A''" v'] va' v'
  have l': "logged_volume (event_log v') =
        total_dredged v' + pending_volume (config v') ''A'' (event_queue sim')"
    by blast
  have l: "logged_volume (event_log vessel_A) = total_dredged vessel_A"
    using t va e by (simp add: q)
  from va e l r va' v' l' show ?thesis by blast
qed

text \<open>
  After \<open>run(1.0)\<close> on the default vessel the dredging sample of 5000 is in the log while
  the dredge is still in progress: \<open>total_dredged\<close> is 0.
\<close>

theorem total_dredged_lags_log_counterexample:
  "\<exists>sim' v. run 3 (\<lambda>_. 0) (Some 1) sim_A = Some (Inr sim') \<and> entities sim' ''A'' = Some v \<and>
     total_dredged v = 0 \<and> logged_volume (event_log v) = 5000"
  by (simp add: eval_defs numeral_3_eq_3)

section \<open>A run without bound\<close>

lemma handle_event_schedules:
  "handle_event z ev v s = Inr (v', s') \<Longrightarrow> segment_manager s = None \<Longrightarrow>
   segment_manager s' = None \<and>
   length (event_queue s') = length (event_queue s) + scheduled_count (event_type ev) \<and>
   (0 < scheduled_count (event_type ev) \<longrightarrow>
      (\<exists>e. e \<in> set (event_queue s') \<and> 0 < scheduled_count (event_type e) \<and>
           entity_id e = vessel_id v))"
  by (auto simp: handler_defs scheduled_count_def
           split: EventType.splits sum.splits option.splits prod.splits if_splits)


lemma vessel_at_work_iff:
  "vessel_at_work s \<longleftrightarrow>
     segment_manager s = None \<and>
     (\<exists>e v. e \<in> set (event_queue s) \<and> 0 < scheduled_count (event_type e) \<and>
            entities s (entity_id e) = Some v \<and> vessel_id v = entity_id e)"
  by (auto simp: vessel_at_work_def list_ex_iff split: option.splits)

lemma run_body_at_work:
  assumes w: "vessel_at_work s" and r: "run_body z end_time s = Continue s'"
  shows "vessel_at_work s'"
proof -
  from w obtain x vx where sm: "segment_manager s = None" and x: "x \<in> set (event_queue s)"
      "0 < scheduled_count (event_type x)" "entities s (entity_id x) = Some vx"
      "vessel_id vx = entity_id x"
    by (auto simp: vessel_at_work_iff)
  then have ne: "event_queue s \<noteq> []" by auto
  from ne show ?thesis
  proof (cases rule: run_body_cases [where end_time = end_time and z = z])
    case (beyond e q t)
    then show ?thesis using r by simp
  next
    case (unknown e q)
    note p = heappop_facts [OF unknown(1)]
    have s': "s' = (after_pop s e q)\<lparr>printed := printed s @ [warning e]\<rparr>"
      using r unknown(4) by simp
    have "x \<noteq> e" using x(3) unknown(3) by auto
    moreover have "x \<in># add_mset e (mset q)" using x(1) p(1) by (metis set_mset_mset)
    ultimately have "x \<in> set q" by simp
    then show ?thesis using sm x by (auto simp: s' vessel_at_work_iff)
  next
    case (handled e q v v' s1)
    note p = heappop_facts [OF handled(1)]
    note fr = handle_event_frame [OF handled(4)]
    note qu = handle_event_queue [OF handled(4)]
    have sm1: "segment_manager (after_pop s e q) = None" using sm by simp
    note sc = handle_event_schedules [OF handled(4) sm1]
    have s': "s' = s1\<lparr>entities := (entities s1)(entity_id e \<mapsto> v')\<rparr>"
      using r handled(5) by simp
    have ent: "entities s1 = entities s" using fr by simp
    have xin: "x \<in># add_mset e (mset q)" using x(1) p(1) by (metis set_mset_mset)
    show ?thesis
    proof (cases "x \<in> set q")
      case True
      then have "x \<in> set (event_queue s1)"
        using qu by (metis after_pop_simps(1) mset_subset_eqD set_mset_mset)
      moreover have "\<exists>w. ((entities s)(entity_id e \<mapsto> v')) (entity_id x) = Some w \<and>
                        vessel_id w = entity_id x"
        using x(3,4) handled(3) fr by (cases "entity_id x = entity_id e") auto
      ultimately show ?thesis using sc x(2) by (auto simp: s' ent vessel_at_work_iff)
    next
      case False
      then have xe: "x = e" using xin by simp
      then have "v = vx" using x(3) handled(3) by simp
      then have vid: "vessel_id v = entity_id e" using x(4) xe by simp
      have "0 < scheduled_count (event_type e)" using x(2) xe by simp
      with sc obtain y where y: "y \<in> set (event_queue s1)"
          "0 < scheduled_count (event_type y)" "entity_id y = vessel_id v"
        by auto
      have "((entities s)(entity_id e \<mapsto> v')) (entity_id y) = Some v'" using y(3) vid by simp
      moreover have "vessel_id v' = entity_id y" using fr y(3) by simp
      ultimately show ?thesis using sc y by (auto simp: s' ent vessel_at_work_iff)
    qed
  next
    case (raised e q v err)
    then show ?thesis using r by simp
  qed
qed

lemma run_loop_never_returns:
  "vessel_at_work s \<Longrightarrow> running s \<Longrightarrow> \<not> truthy end_time \<Longrightarrow>
   run_loop n z end_time s \<noteq> Some (Inr s')"
proof (induction n arbitrary: s)
  case 0
  then show ?case by simp
next
  case (Suc n)
  have ne: "event_queue s \<noteq> []" using Suc.prems(1) by (auto simp: vessel_at_work_iff)
  show ?case
  proof (cases "run_body z end_time s")
    case (Continue s1)
    have w1: "vessel_at_work s1" by (rule run_body_at_work [OF Suc.prems(1) Continue])
    have "running s1"
      using ne
    proof (cases rule: run_body_cases [where end_time = end_time and z = z])
      case (handled e q v v' s2)
      then show ?thesis
        using Continue Suc.prems(2) handle_event_frame [OF handled(4)] by auto
    qed (use Continue Suc.prems(2) in auto)
    then have "run_loop n z end_time s1 \<noteq> Some (Inr s')"
      using w1 Suc.prems(3) by (intro Suc.IH)
    then show ?thesis using ne Suc.prems(2) Continue by simp
  next
    case (Break s1)
    then show ?thesis using run_body_no_break [OF Suc.prems(3)] by blast
  next
    case (Raise e)
    then show ?thesis using ne Suc.prems(2) by simp
  qed
qed

text \<open>
  Claim C10, as the code has it. With no segment manager attached, the handlers of
  \<open>DREDGING_START\<close> and of the four completion events schedule one or two follow-up
  events; the handlers of the three start markers (\<open>MOVE_TO_DA_START\<close>, \<open>DUMPING_START\<close>,
  \<open>MOVE_BACK_START\<close>) schedule none. Once \<open>start_work\<close> has queued the first event of a
  vessel registered under its id, every pass of the run loop leaves an event of a
  scheduling handler in the queue, so the queue is never empty, and \<open>run\<close> with no bound
  (\<open>None\<close>, or \<open>0.0\<close>) never returns: for every amount of fuel it is still running or has
  raised.
\<close>

theorem run_without_bound_never_returns:
  "(segment_manager sim = None \<and> handle_event z ev v sim = Inr (v', sim') \<longrightarrow>
      length (event_queue sim') = length (event_queue sim) + scheduled_count (event_type ev)) \<and>
   (segment_manager sim = None \<and> entities sim (vessel_id v) = Some v \<longrightarrow>
      vessel_at_work (start_work v sim)) \<and>
   (vessel_at_work sim \<longrightarrow> event_queue sim \<noteq> []) \<and>
   (vessel_at_work sim \<and> run_body z end_time sim = Continue sim' \<longrightarrow> vessel_at_work sim') \<and>
   (vessel_at_work sim \<and> \<not> truthy end_time \<longrightarrow> run fuel z end_time sim \<noteq> Some (Inr sim''))"
proof (intro conjI impI)
  assume "segment_manager sim = None \<and> handle_event z ev v sim = Inr (v', sim')"
  then show "length (event_queue sim') = length (event_queue sim) + scheduled_count (event_type ev)"
    using handle_event_schedules [of z ev v sim v' sim'] by simp
next
  assume "segment_manager sim = None \<and> entities sim (vessel_id v) = Some v"
  then show "vessel_at_work (start_work v sim)"
    by (auto simp: vessel_at_work_iff start_work_def scheduled_count_def)
next
  assume "vessel_at_work sim"
  then show "event_queue sim \<noteq> []" by (auto simp: vessel_at_work_iff)
next
  assume "vessel_at_work sim \<and> run_body z end_time sim = Continue sim'"
  then show "vessel_at_work sim'" using run_body_at_work by blast
next
  assume a: "vessel_at_work sim \<and> \<not> truthy end_time"
  then have "vessel_at_work (sim\<lparr>running := True\<rparr>)" by (simp add: vessel_at_work_def)
  then have "run_loop fuel z end_time (sim\<lparr>running := True\<rparr>) \<noteq> Some (Inr s)" for s
    using a by (intro run_loop_never_returns) auto
  then show "run fuel z end_time sim \<noteq> Some (Inr sim'')"
    by (auto simp: run_def split: option.splits sum.splits)
qed


theorem run_without_bound_never_returns_witness:
  "segment_manager sim_A = None \<and> vessel_at_work sim_A \<and> event_queue sim_A \<noteq> [] \<and>
   \<not> truthy None \<and>
   (\<forall>s. run 20 (\<lambda>_. 0) None sim_A \<noteq> Some (Inr s)) \<and>
   (\<forall>s. run 20 (\<lambda>_. 0) (Some 0) sim_A \<noteq> Some (Inr s)) \<and>
   (\<exists>v' s'. handle_event (\<lambda>_. 0)
               \<lparr>time = 0, event_type = DREDGING_START, entity_id = ''A'', data = []\<rparr>
               vessel_A (Simulation_init\<lparr>entities := [''A'' \<mapsto> vessel_A]\<rparr>) = Inr (v', s') \<and>
            length (event_queue s') = 1)"
proof -
  let ?s0 = "Simulation_init\<lparr>entities := [''A'' \<mapsto> vessel_A]\<rparr>"
  let ?e0 = "\<lparr>time = 0, event_type = DREDGING_START, entity_id = ''A'', data = []\<rparr>"
  have s0: "segment_manager ?s0 = None" "entities ?s0 (vessel_id vessel_A) = Some vessel_A"
      "event_queue ?s0 = []"
    by (simp_all add: Simulation_init_def vessel_A_def TSHD_init_def)
  have sm: "segment_manager sim_A = None"
    by (simp add: sim_A_def start_work_def Simulation_init_def)
  note t = run_without_bound_never_returns [of ?s0 "\<lambda>_. 0" ?e0 vessel_A]
  have w: "vessel_at_work sim_A"
    using t s0 by (simp add: sim_A_def)
  have ne: "event_queue sim_A \<noteq> []"
    using run_without_bound_never_returns [of sim_A] w by blast
  have n1: "run 20 (\<lambda>_. 0) None sim_A \<noteq> Some (Inr s)" for s
    using run_without_bound_never_returns [of sim_A _ _ _ _ _ None 20 s] w
    by (simp add: truthy_def)
  have n2: "run 20 (\<lambda>_. 0) (Some 0) sim_A \<noteq> Some (Inr s)" for s
    using run_without_bound_never_returns [of sim_A _ _ _ _ _ "Some 0" 20 s] w
    by (simp add: truthy_def)
  have "\<exists>v' s'. handle_event (\<lambda>_. 0) ?e0 vessel_A ?s0 = Inr (v', s')"
    by (simp add: eval_defs)
  then obtain v' s' where h: "handle_event (\<lambda>_. 0) ?e0 vessel_A ?s0 = Inr (v', s')" by blast
  have "length (event_queue s') = 1"
    using run_without_bound_never_returns [of ?s0 "\<lambda>_. 0" ?e0 vessel_A v' s'] h s0
    by (simp add: scheduled_count_def)
  with h sm w ne n1 n2 show ?thesis by (auto simp: truthy_def)
qed

text \<open>
  The handler of \<open>MOVE_TO_DA_START\<close> only records the state: with no segment manager
  attached it returns with the queue as empty as it found it.
\<close>

theorem marker_handler_schedules_nothing_counterexample:
  "\<exists>v' s'. handle_event (\<lambda>_. 0)
              \<lparr>time = 0, event_type = MOVE_TO_DA_START, entity_id = ''A'', data = []\<rparr>
              vessel_A (Simulation_init\<lparr>entities := [''A'' \<mapsto> vessel_A]\<rparr>) = Inr (v', s') \<and>
           segment_manager s' = None \<and> event_queue s' = []"
  by (simp add: eval_defs)

section \<open>The campaign driver on an empty fleet\<close>

lemma run_empty_queue:
  "event_queue sim = [] \<Longrightarrow> run (Suc n) z end_time sim = Some (Inr (sim\<lparr>running := False\<rparr>))"
  by (simp add: run_def)

lemma campaign_loop_empty_fleet:
  "target_volume > 0 \<Longrightarrow>
   campaign_loop n z (Simulation_init\<lparr>running := False\<rparr>) [] target_volume step t = None"
proof (induction n arbitrary: t)
  case 0
  then show ?case by simp
next
  case (Suc n)
  show ?case
  proof (cases n)
    case 0
    then show ?thesis by (simp add: run_def)
  next
    case (Suc m)
    have "run n z (Some t) (Simulation_init\<lparr>running := False\<rparr>) =
          Some (Inr (Simulation_init\<lparr>running := False\<rparr>))"
      unfolding Suc by (subst run_empty_queue) (simp_all add: Simulation_init_def)
    moreover have "clock (Simulation_init\<lparr>running := False\<rparr>) = 0"
      by (simp add: Simulation_init_def)
    ultimately show ?thesis
      using Suc.prems Suc.IH [OF Suc.prems] by (simp add: max_simulation_time_def)
  qed
qed

section \<open>Runs in stages\<close>

lemma heap_min_unique:
  assumes h: "heap_ok h" and h': "heap_ok h'" and m: "mset h = mset h'"
    and d: "distinct (map time h)" and ne: "h \<noteq> []"
  shows "h ! 0 = h' ! 0"
proof -
  have ne': "h' \<noteq> []" using m ne by auto
  have s: "set h = set h'" using m by (metis set_mset_mset)
  have a: "h ! 0 \<in> set h" "h' ! 0 \<in> set h'" using ne ne' by auto
  then obtain i j where i: "i < length h'" "h ! 0 = h' ! i" and j: "j < length h" "h' ! 0 = h ! j"
    using s by (metis in_set_conv_nth)
  have "time (h' ! 0) \<le> time (h ! 0)" using heap_ok_min [OF h' i(1)] i(2) by simp
  moreover have "time (h ! 0) \<le> time (h' ! 0)" using heap_ok_min [OF h j(1)] j(2) by simp
  ultimately have "time (h ! 0) = time (h' ! 0)" by simp
  moreover have "inj_on time (set h)" using d by (simp add: distinct_map)
  ultimately show ?thesis using a s by (auto dest: inj_onD)
qed

lemma heappop_same:
  assumes h: "heap_ok h" and h': "heap_ok h'" and m: "mset h = mset h'"
    and d: "distinct (map time h)" and p: "heappop h = Inr (e, q)"
  shows "\<exists>q'. heappop h' = Inr (e, q') \<and> mset q = mset q' \<and> heap_ok q \<and> heap_ok q'"
proof -
  have ne: "h \<noteq> []" using p by (rule heappop_nonempty)
  then have ne': "h' \<noteq> []" using m by auto
  from heappop_total [OF ne'] obtain e' q' where p': "heappop h' = Inr (e', q')" by blast
  have "e = e'"
    using heap_min_unique [OF h h' m d ne] heappop_facts(2) [OF p] heappop_facts(2) [OF p']
    by simp
  moreover have "mset q = mset q'"
    using heappop_facts(1) [OF p] heappop_facts(1) [OF p'] m \<open>e = e'\<close> by simp
  moreover note heap_ok_heappop [OF h p] heap_ok_heappop [OF h' p']
  ultimately show ?thesis using p' by blast
qed

lemma start_move_to_da_queue_order:
  "(case start_move_to_da ev v (s\<lparr>event_queue := q\<rparr>) of
      Inl e \<Rightarrow> start_move_to_da ev v (s\<lparr>event_queue := q'\<rparr>) = Inl e
    | Inr (w, s1) \<Rightarrow>
        (\<exists>s1'. start_move_to_da ev v (s\<lparr>event_queue := q'\<rparr>) = Inr (w, s1') \<and>
               s1\<lparr>event_queue := event_queue s1'\<rparr> = s1' \<and>
               (mset q = mset q' \<longrightarrow> mset (event_queue s1) = mset (event_queue s1'))))"
  by (auto simp: handler_defs
           split: sum.splits option.splits prod.splits if_splits)

lemma start_dumping_queue_order:
  "(case start_dumping ev v (s\<lparr>event_queue := q\<rparr>) of
      Inl e \<Rightarrow> start_dumping ev v (s\<lparr>event_queue := q'\<rparr>) = Inl e
    | Inr (w, s1) \<Rightarrow>
        (\<exists>s1'. start_dumping ev v (s\<lparr>event_queue := q'\<rparr>) = Inr (w, s1') \<and>
               s1\<lparr>event_queue := event_queue s1'\<rparr> = s1' \<and>
               (mset q = mset q' \<longrightarrow> mset (event_queue s1) = mset (event_queue s1'))))"
  by (auto simp: handler_defs
           split: sum.splits option.splits prod.splits if_splits)

lemma start_move_back_queue_order:
  "(case start_move_back ev v (s\<lparr>event_queue := q\<rparr>) of
      Inl e \<Rightarrow> start_move_back ev v (s\<lparr>event_queue := q'\<rparr>) = Inl e
    | Inr (w, s1) \<Rightarrow>
        (\<exists>s1'. start_move_back ev v (s\<lparr>event_queue := q'\<rparr>) = Inr (w, s1') \<and>
               s1\<lparr>event_queue := event_queue s1'\<rparr> = s1' \<and>
               (mset q = mset q' \<longrightarrow> mset (event_queue s1) = mset (event_queue s1'))))"
  by (auto simp: handler_defs
           split: sum.splits option.splits prod.splits if_splits)

lemma complete_move_back_queue_order:
  "(case complete_move_back ev v (s\<lparr>event_queue := q\<rparr>) of
      Inl e \<Rightarrow> complete_move_back ev v (s\<lparr>event_queue := q'\<rparr>) = Inl e
    | Inr (w, s1) \<Rightarrow>
        (\<exists>s1'. complete_move_back ev v (s\<lparr>event_queue := q'\<rparr>) = Inr (w, s1') \<and>
               s1\<lparr>event_queue := event_queue s1'\<rparr> = s1' \<and>
               (mset q = mset q' \<longrightarrow> mset (event_queue s1) = mset (event_queue s1'))))"
  by (auto simp: handler_defs
           split: sum.splits option.splits prod.splits if_splits)

lemma complete_dumping_queue_order:
  "(case complete_dumping z ev v (s\<lparr>event_queue := q\<rparr>) of
      Inl e \<Rightarrow> complete_dumping z ev v (s\<lparr>event_queue := q'\<rparr>) = Inl e
    | Inr (w, s1) \<Rightarrow>
        (\<exists>s1'. complete_dumping z ev v (s\<lparr>event_queue := q'\<rparr>) = Inr (w, s1') \<and>
               s1\<lparr>event_queue := event_queue s1'\<rparr> = s1' \<and>
               (mset q = mset q' \<longrightarrow> mset (event_queue s1) = mset (event_queue s1'))))"
  by (auto simp: handler_defs
           split: sum.splits option.splits prod.splits if_splits)

lemma complete_dredging_queue_order:
  "(case complete_dredging z ev v (s\<lparr>event_queue := q\<rparr>) of
      Inl e \<Rightarrow> complete_dredging z ev v (s\<lparr>event_queue := q'\<rparr>) = Inl e
    | Inr (w, s1) \<Rightarrow>
        (\<exists>s1'. complete_dredging z ev v (s\<lparr>event_queue := q'\<rparr>) = Inr (w, s1') \<and>
               s1\<lparr>event_queue := event_queue s1'\<rparr> = s1' \<and>
               (mset q = mset q' \<longrightarrow> mset (event_queue s1) = mset (event_queue s1'))))"
  by (auto simp: handler_defs
           split: sum.splits option.splits prod.splits if_splits)

lemma complete_move_to_da_queue_order:
  "(case complete_move_to_da z ev v (s\<lparr>event_queue := q\<rparr>) of
      Inl e \<Rightarrow> complete_move_to_da z ev v (s\<lparr>event_queue := q'\<rparr>) = Inl e
    | Inr (w, s1) \<Rightarrow>
        (\<exists>s1'. complete_move_to_da z ev v (s\<lparr>event_queue := q'\<rparr>) = Inr (w, s1') \<and>
               s1\<lparr>event_queue := event_queue s1'\<rparr> = s1' \<and>
               (mset q = mset q' \<longrightarrow> mset (event_queue s1) = mset (event_queue s1'))))"
  by (auto simp: handler_defs
           split: sum.splits option.splits prod.splits if_splits)

lemma start_dredging_queue_order:
  "(case start_dredging z ev v (s\<lparr>event_queue := q\<rparr>) of
      Inl e \<Rightarrow> start_dredging z ev v (s\<lparr>event_queue := q'\<rparr>) = Inl e
    | Inr (w, s1) \<Rightarrow>
        (\<exists>s1'. start_dredging z ev v (s\<lparr>event_queue := q'\<rparr>) = Inr (w, s1') \<and>
               s1\<lparr>event_queue := event_queue s1'\<rparr> = s1' \<and>
               (mset q = mset q' \<longrightarrow> mset (event_queue s1) = mset (event_queue s1'))))"
  by (auto simp: handler_defs
           split: sum.splits option.splits prod.splits if_splits)

lemma handle_event_queue_order:
  "(case handle_event z ev v (s\<lparr>event_queue := q\<rparr>) of
      Inl e \<Rightarrow> handle_event z ev v (s\<lparr>event_queue := q'\<rparr>) = Inl e
    | Inr (w, s1) \<Rightarrow>
        (\<exists>s1'. handle_event z ev v (s\<lparr>event_queue := q'\<rparr>) = Inr (w, s1') \<and>
               s1\<lparr>event_queue := event_queue s1'\<rparr> = s1' \<and>
               (mset q = mset q' \<longrightarrow> mset (event_queue s1) = mset (event_queue s1'))))"
proof (cases "event_type ev")
  case DREDGING_START
  show ?thesis
    unfolding handle_event_def DREDGING_START EventType.case by (rule start_dredging_queue_order)
next
  case DREDGING_COMPLETE
  show ?thesis
    unfolding handle_event_def DREDGING_COMPLETE EventType.case by (rule complete_dredging_queue_order)
next
  case MOVE_TO_DA_START
  show ?thesis
    unfolding handle_event_def MOVE_TO_DA_START EventType.case by (rule start_move_to_da_queue_order)
next
  case MOVE_TO_DA_COMPLETE
  show ?thesis
    unfolding handle_event_def MOVE_TO_DA_COMPLETE EventType.case by (rule complete_move_to_da_queue_order)
next
  case DUMPING_START
  show ?thesis
    unfolding handle_event_def DUMPING_START EventType.case by (rule start_dumping_queue_order)
next
  case DUMPING_COMPLETE
  show ?thesis
    unfolding handle_event_def DUMPING_COMPLETE EventType.case by (rule complete_dumping_queue_order)
next
  case MOVE_BACK_START
  show ?thesis
    unfolding handle_event_def MOVE_BACK_START EventType.case by (rule start_move_back_queue_order)
next
  case MOVE_BACK_COMPLETE
  show ?thesis
    unfolding handle_event_def MOVE_BACK_COMPLETE EventType.case by (rule complete_move_back_queue_order)
qed

lemma handle_event_queue_order_Inr:
  assumes "handle_event z ev v (s\<lparr>event_queue := q\<rparr>) = Inr (w, s1)" and "mset q = mset q'"
  obtains s1' where "handle_event z ev v (s\<lparr>event_queue := q'\<rparr>) = Inr (w, s1')"
    "s1\<lparr>event_queue := event_queue s1'\<rparr> = s1'" "mset (event_queue s1) = mset (event_queue s1')"
  using handle_event_queue_order [where z = z and ev = ev and v = v and s = s and q = q and q' = q'] assms
  by auto

section \<open>The sampled durations\<close>

lemma sample_is_clamped_draw_simps [simp]:
  "sample_is_clamped_draw x task_opt (Note t m st)"
  "sample_is_clamped_draw x task_opt (Sample t task d ex st) \<longleftrightarrow>
     task_opt = Some task \<and> d = max (task_floor task) x"
  by (simp_all add: sample_is_clamped_draw_def)

lemma handle_event_draw:
  "handle_event z ev v s = Inr (v', s') \<Longrightarrow>
   take (length (event_log v)) (event_log v') = event_log v \<and>
   list_all (sample_is_clamped_draw (normal_draw z ev v s) (sampled_task (event_type ev)))
     (drop (length (event_log v)) (event_log v'))"
  by (auto simp: handler_defs normal_draw_def mean_duration_def stdev_pct_def sampled_task_def
           split: EventType.splits sum.splits option.splits prod.splits if_splits)


lemma normal_draw_after_pop [simp]:
  "normal_draw z ev v (after_pop s e q) = normal_draw z ev v s"
  by (simp add: normal_draw_def mean_duration_def Let_def split: EventType.splits)

lemma run_body_draw:
  assumes ne: "event_queue s \<noteq> []" and pop: "heappop (event_queue s) = Inr (ev, q)"
    and ent: "entities s (entity_id ev) = Some v"
    and r: "run_body z end_time s = Continue s'"
  shows "\<exists>v'. entities s' = (entities s)(entity_id ev \<mapsto> v') \<and>
      take (length (event_log v)) (event_log v') = event_log v \<and>
      list_all (sample_is_clamped_draw (normal_draw z ev v s) (sampled_task (event_type ev)))
        (drop (length (event_log v)) (event_log v'))"
  using ne
proof (cases rule: run_body_cases [where end_time = end_time and z = z])
  case (beyond e q' t)
  then show ?thesis using r by simp
next
  case (unknown e q')
  then show ?thesis using pop ent by simp
next
  case (handled e q' w w' s1)
  then have eq: "e = ev" "q' = q" "w = v" using pop ent by simp_all
  have h: "handle_event z ev v (after_pop s ev q) = Inr (w', s1)"
    using handled(4) eq by simp
  have "entities s1 = entities s"
    using handle_event_frame [OF h] by simp
  then have "entities s' = (entities s)(entity_id ev \<mapsto> w')"
    using r handled(5) eq by auto
  then show ?thesis using handle_event_draw [OF h] by (intro exI [of _ w']) simp
next
  case (raised e q' w err)
  then show ?thesis using r by simp
qed

text \<open>
  Claim C9, as the code has it. Every handler that samples a duration records
  \<open>max(floor, draw)\<close> for its task, where the draw is what \<open>np.random.normal\<close> returns for
  the mean and spread of the task: the entries a handler appends to the log are notes and
  samples of its own task with exactly that duration, and a pass through the run loop
  changes the registry only by storing the vessel with these entries added. So a recorded duration is at least
  its floor (0.1 for dredging, 0.01 for either transit, 0.05 for dumping), equal to the
  floor whenever the draw is at or below it, and equal to the draw otherwise. No pass
  through the run loop and no call of \<open>run\<close>, whatever the draws and the bound, leaves a
  sample below its floor in the log of a registered vessel; vessels start with an empty
  log. (The claim's strict inequality fails: see the counterexample below.)
\<close>

theorem samples_are_clamped_draws:
  "(handle_event z ev v s = Inr (v', s1) \<longrightarrow>
      take (length (event_log v)) (event_log v') = event_log v \<and>
      list_all (sample_is_clamped_draw (normal_draw z ev v s) (sampled_task (event_type ev)))
        (drop (length (event_log v)) (event_log v'))) \<and>
   (sample_is_clamped_draw x (Some task) (Sample t task d ex st) \<longrightarrow>
      task_floor task \<le> d \<and> (x \<le> task_floor task \<longrightarrow> d = task_floor task) \<and>
      (task_floor task \<le> x \<longrightarrow> d = x)) \<and>
   (event_queue sim \<noteq> [] \<and> heappop (event_queue sim) = Inr (e, q) \<and>
    entities sim (entity_id e) = Some w \<and> run_body z end_time sim = Continue sim' \<longrightarrow>
      (\<exists>w'. entities sim' = (entities sim)(entity_id e \<mapsto> w') \<and>
         take (length (event_log w)) (event_log w') = event_log w \<and>
         list_all (sample_is_clamped_draw (normal_draw z e w sim) (sampled_task (event_type e)))
           (drop (length (event_log w)) (event_log w')))) \<and>
   (logs_at_least_floor sim \<and> event_queue sim \<noteq> [] \<and>
    (run_body z end_time sim = Continue sim' \<or> run_body z end_time sim = Break sim') \<longrightarrow>
      logs_at_least_floor sim') \<and>
   (logs_at_least_floor sim \<and> run fuel z end_time sim = Some (Inr sim'') \<longrightarrow>
      logs_at_least_floor sim'') \<and>
   ((\<forall>u \<in> ran (entities sim). event_log u = []) \<longrightarrow> logs_at_least_floor sim)"
proof (intro conjI impI)
  assume h: "handle_event z ev v s = Inr (v', s1)"
  from handle_event_draw [OF h]
  show "take (length (event_log v)) (event_log v') = event_log v"
    and "list_all (sample_is_clamped_draw (normal_draw z ev v s) (sampled_task (event_type ev)))
        (drop (length (event_log v)) (event_log v'))"
    by auto
next
  assume c: "sample_is_clamped_draw x (Some task) (Sample t task d ex st)"
  then have d: "d = max (task_floor task) x" by simp
  show "task_floor task \<le> d" using d by simp
  show "d = task_floor task" if "x \<le> task_floor task" using d that by simp
  show "d = x" if "task_floor task \<le> x" using d that by simp
next
  assume "event_queue sim \<noteq> [] \<and> heappop (event_queue sim) = Inr (e, q) \<and>
    entities sim (entity_id e) = Some w \<and> run_body z end_time sim = Continue sim'"
  then show "\<exists>w'. entities sim' = (entities sim)(entity_id e \<mapsto> w') \<and>
         take (length (event_log w)) (event_log w') = event_log w \<and>
         list_all (sample_is_clamped_draw (normal_draw z e w sim) (sampled_task (event_type e)))
           (drop (length (event_log w)) (event_log w'))"
    using run_body_draw [of sim e q w z end_time sim'] by blast
next
  assume "logs_at_least_floor sim \<and> event_queue sim \<noteq> [] \<and>
    (run_body z end_time sim = Continue sim' \<or> run_body z end_time sim = Break sim')"
  then show "logs_at_least_floor sim'"
    using run_body_logs [of sim z end_time sim'] by blast
next
  assume a: "logs_at_least_floor sim \<and> run fuel z end_time sim = Some (Inr sim'')"
  then obtain s1 where s1: "run_loop fuel z end_time (sim\<lparr>running := True\<rparr>) = Some (Inr s1)"
    and sim'': "sim'' = s1\<lparr>running := False\<rparr>"
    by (auto simp: run_def split: option.splits sum.splits)
  have "logs_at_least_floor (sim\<lparr>running := True\<rparr>)"
    using a by (simp add: logs_at_least_floor_def)
  then have "logs_at_least_floor s1"
    by (rule run_loop_invariant [where I = logs_at_least_floor, OF _ _ _ s1])
       (auto intro: run_body_logs)
  then show "logs_at_least_floor sim''"
    by (simp add: sim'' logs_at_least_floor_def)
next
  assume "\<forall>u \<in> ran (entities sim). event_log u = []"
  then show "logs_at_least_floor sim" by (simp add: logs_at_least_floor_def)
qed


lemmas wide_defs = sim_wide_def vessel_wide_def start_event_def draws_low_def after_pop_def

theorem samples_are_clamped_draws_witness:
  "normal_draw draws_low start_event vessel_wide (after_pop sim_wide start_event []) = 0 \<and>
   (\<exists>v' s1. handle_event draws_low start_event vessel_wide (after_pop sim_wide start_event [])
               = Inr (v', s1) \<and>
      event_log v' = [Note 0 Starting_dredging DREDGING,
                      Sample 0 ''dredging'' 0.1
                        [(''volume_m3'', PFloat 5000), (''segment'', PNone)] DREDGING] \<and>
      list_all (sample_is_clamped_draw 0 (Some ''dredging'')) (event_log v')) \<and>
   sample_is_clamped_draw 0 (Some ''dredging'')
     (Sample 0 ''dredging'' 0.1 [(''volume_m3'', PFloat 5000), (''segment'', PNone)] DREDGING) \<and>
   sample_is_clamped_draw 3 (Some ''dredging'')
     (Sample 0 ''dredging'' 3 [(''volume_m3'', PFloat 5000), (''segment'', PNone)] DREDGING) \<and>
   task_floor ''dredging'' = 0.1 \<and>
   logs_at_least_floor sim_wide \<and>
   (\<exists>sim' w'. run_body draws_low (Some 0.05) sim_wide = Continue sim' \<and>
      entities sim' = (entities sim_wide)(''A'' \<mapsto> w') \<and>
      list_all (sample_is_clamped_draw 0 (Some ''dredging'')) (event_log w') \<and>
      logs_at_least_floor sim') \<and>
   (\<exists>sim''. run 3 draws_low (Some 0.05) sim_wide = Some (Inr sim'') \<and>
      log_after (Some (Inr sim'')) ''A'' =
        [Note 0 Starting_dredging DREDGING,
         Sample 0 ''dredging'' 0.1 [(''volume_m3'', PFloat 5000), (''segment'', PNone)] DREDGING] \<and>
      logs_at_least_floor sim'')"
proof -
  have d: "normal_draw draws_low start_event vessel_wide (after_pop sim_wide start_event []) = 0"
    by (simp add: normal_draw_def mean_duration_def stdev_pct_def wide_defs eval_defs)
  have "\<exists>v' s1. handle_event draws_low start_event vessel_wide (after_pop sim_wide start_event [])
               = Inr (v', s1) \<and>
      event_log v' = [Note 0 Starting_dredging DREDGING,
                      Sample 0 ''dredging'' 0.1
                        [(''volume_m3'', PFloat 5000), (''segment'', PNone)] DREDGING]"
    by (simp add: wide_defs eval_defs)
  then obtain v' s1 where h: "handle_event draws_low start_event vessel_wide
                                (after_pop sim_wide start_event []) = Inr (v', s1)"
    and l: "event_log v' = [Note 0 Starting_dredging DREDGING,
                      Sample 0 ''dredging'' 0.1
                        [(''volume_m3'', PFloat 5000), (''segment'', PNone)] DREDGING]"
    by blast
  have v0: "event_log vessel_wide = []" "event_type start_event = DREDGING_START"
    by (simp_all add: wide_defs TSHD_init_def)
  have a: "list_all (sample_is_clamped_draw 0 (Some ''dredging'')) (event_log v')"
    using samples_are_clamped_draws [of draws_low start_event vessel_wide
        "after_pop sim_wide start_event []" v' s1] h d v0
    by (simp add: sampled_task_def)
  have c1: "sample_is_clamped_draw 0 (Some ''dredging'')
     (Sample 0 ''dredging'' 0.1 [(''volume_m3'', PFloat 5000), (''segment'', PNone)] DREDGING)"
    using a l by simp
  have c2: "sample_is_clamped_draw 3 (Some ''dredging'')
     (Sample 0 ''dredging'' 3 [(''volume_m3'', PFloat 5000), (''segment'', PNone)] DREDGING)"
    by simp
  have c3: "task_floor ''dredging'' = 0.1"
    using samples_are_clamped_draws [where x = 0 and task = "''dredging''" and d = "0.1"
        and t = 0 and ex = "[(''volume_m3'', PFloat 5000), (''segment'', PNone)]"
        and st = DREDGING] c1
    by simp
  have e: "ran (entities sim_wide) = {vessel_wide}"
    by (simp add: sim_wide_def start_work_def schedule_event_def Simulation_init_def)
  have b: "logs_at_least_floor sim_wide"
    using samples_are_clamped_draws [where sim = sim_wide] e v0 by simp
  have q: "event_queue sim_wide \<noteq> []"
    by (simp add: wide_defs eval_defs)
  have "\<exists>sim'. run_body draws_low (Some 0.05) sim_wide = Continue sim'"
    by (simp add: wide_defs eval_defs)
  then obtain sim' where p: "run_body draws_low (Some 0.05) sim_wide = Continue sim'"
    by blast
  have p': "logs_at_least_floor sim'"
    using samples_are_clamped_draws [where sim = sim_wide and z = draws_low
        and end_time = "Some 0.05" and sim' = sim'] b q p
    by simp
  have pop: "heappop (event_queue sim_wide) = Inr (start_event, [])"
    "entities sim_wide (entity_id start_event) = Some vessel_wide"
    "entity_id start_event = ''A''"
    by (simp_all add: wide_defs eval_defs)
  have d': "normal_draw draws_low start_event vessel_wide sim_wide = 0"
    using d by simp
  have "\<exists>w'. entities sim' = (entities sim_wide)(''A'' \<mapsto> w') \<and>
      list_all (sample_is_clamped_draw 0 (Some ''dredging'')) (event_log w')"
    using samples_are_clamped_draws [where sim = sim_wide and z = draws_low
        and end_time = "Some 0.05" and sim' = sim' and e = start_event and q = "[]"
        and w = vessel_wide] q p pop d' v0
    by (simp add: sampled_task_def)
  then obtain w' where w': "entities sim' = (entities sim_wide)(''A'' \<mapsto> w')"
      "list_all (sample_is_clamped_draw 0 (Some ''dredging'')) (event_log w')"
    by blast
  have "\<exists>sim''. run 3 draws_low (Some 0.05) sim_wide = Some (Inr sim'') \<and>
      log_after (Some (Inr sim'')) ''A'' =
        [Note 0 Starting_dredging DREDGING,
         Sample 0 ''dredging'' 0.1 [(''volume_m3'', PFloat 5000), (''segment'', PNone)] DREDGING]"
    by (simp add: wide_defs eval_defs log_after_def numeral_3_eq_3)
  then obtain sim'' where r: "run 3 draws_low (Some 0.05) sim_wide = Some (Inr sim'')"
    and r': "log_after (Some (Inr sim'')) ''A'' =
        [Note 0 Starting_dredging DREDGING,
         Sample 0 ''dredging'' 0.1 [(''volume_m3'', PFloat 5000), (''segment'', PNone)] DREDGING]"
    by blast
  have r'': "logs_at_least_floor sim''"
    using samples_are_clamped_draws [where sim = sim_wide and z = draws_low
        and end_time = "Some 0.05" and fuel = 3 and sim'' = sim''] b r
    by simp
  from d h l a c1 c2 c3 b p p' w' r r' r'' show ?thesis by blast
qed

text \<open>
  With a spread of 50 per cent, the largest the application accepts, and a first variate of
  -2 the dredging draw is \<open>2 + 1 * (-2) = 0\<close> and the recorded sample is \<open>max(0.1, 0) = 0.1\<close>:
  it is not strictly greater than the floor 0.1.
\<close>

theorem sample_equal_to_floor_counterexample:
  "\<not> list_all sample_above_floor (log_after (run 3 draws_low (Some 0.05) sim_wide) ''A'')"
  by (simp add: wide_defs eval_defs log_after_def numeral_3_eq_3 sample_above_floor_def
        task_floor_def)

section \<open>A bounded run returns\<close>

lemma phi_nonneg: "0 \<le> phi t e"
  by (simp add: phi_def split: EventType.splits)

lemma phi_due: "time e \<le> t \<Longrightarrow> 1 \<le> phi t e"
  by (simp add: phi_def split: EventType.splits)

lemma potential_nonneg: "0 \<le> potential t q"
  unfolding potential_def by (induction q) (simp_all add: phi_nonneg)

lemma potential_mset: "potential t q = sum_mset (image_mset (phi t) (mset q))"
  unfolding potential_def by (metis mset_map sum_mset_sum_list)

lemma potential_heappush [simp]: "potential t (heappush q e) = potential t q + phi t e"
  by (simp add: potential_mset)

lemma potential_heappop:
  "heappop h = Inr (e, q) \<Longrightarrow> potential t h = potential t q + phi t e"
  using heappop_facts(1) [of h e q] by (simp add: potential_mset)

lemma floor_max [simp]:
  "1 \<le> 100 * max (1 / 100) (x::real)" "1 \<le> 100 * max (1 / 10) x" "1 \<le> 100 * max (1 / 20) x"
  by (simp_all add: max_def)

lemma handle_event_potential:
  "handle_event z ev v s = Inr (v', s') \<Longrightarrow> clock s = time ev \<Longrightarrow> time ev \<le> t \<Longrightarrow>
   potential t (event_queue s') + 1 \<le> potential t (event_queue s) + phi t ev"
  by (auto simp: handler_defs phi_def
           split: EventType.splits sum.splits option.splits prod.splits if_splits)

lemma run_body_potential:
  assumes ne: "event_queue s \<noteq> []" and r: "run_body z (Some t) s = Continue s'"
    and t0: "t \<noteq> 0"
  shows "potential t (event_queue s') + 1 \<le> potential t (event_queue s)"
  using ne
proof (cases rule: run_body_cases [where end_time = "Some t" and z = z])
  case (beyond e q u)
  then show ?thesis using r by simp
next
  case (unknown e q)
  then have "time e \<le> t" using t0 by (simp add: truthy_def)
  then have "1 \<le> phi t e" by (rule phi_due)
  moreover have "event_queue s' = q" using r unknown(4) by auto
  ultimately show ?thesis using potential_heappop [OF unknown(1), of t] by simp
next
  case (handled e q v v' s1)
  then have le: "time e \<le> t" using t0 by (simp add: truthy_def)
  have "potential t (event_queue s1) + 1 \<le> potential t (event_queue (after_pop s e q)) + phi t e"
    using handled(4) _ le by (rule handle_event_potential) simp
  moreover have "event_queue s' = event_queue s1" using r handled(5) by auto
  ultimately show ?thesis using potential_heappop [OF handled(1), of t] by simp
next
  case (raised e q v err)
  then show ?thesis using r by simp
qed

lemma run_loop_returns:
  "t \<noteq> 0 \<Longrightarrow> potential t (event_queue s) < real n \<Longrightarrow> \<exists>r. run_loop n z (Some t) s = Some r"
proof (induction n arbitrary: s)
  case 0
  then show ?case using potential_nonneg [of t "event_queue s"] by simp
next
  case (Suc n)
  show ?case
  proof (cases "event_queue s \<noteq> [] \<and> running s")
    case True
    show ?thesis
    proof (cases "run_body z (Some t) s")
      case (Continue s1)
      have "potential t (event_queue s1) + 1 \<le> potential t (event_queue s)"
        using True Continue Suc.prems(1) by (intro run_body_potential) auto
      then have "potential t (event_queue s1) < real n" using Suc.prems(2) by simp
      then obtain r where "run_loop n z (Some t) s1 = Some r"
        using Suc.IH [OF Suc.prems(1)] by blast
      then show ?thesis using True Continue by simp
    next
      case (Break s1)
      then show ?thesis using True by simp
    next
      case (Raise e)
      then show ?thesis using True by simp
    qed
  next
    case False
    then show ?thesis by auto
  qed
qed

lemma run_returns: "t \<noteq> 0 \<Longrightarrow> \<exists>n r. run n z (Some t) s = Some r"
proof -
  assume t0: "t \<noteq> 0"
  define n where "n = Suc (nat \<lceil>potential t (event_queue s)\<rceil>)"
  have "potential t (event_queue (s\<lparr>running := True\<rparr>)) < real n"
    unfolding n_def by simp linarith
  from run_loop_returns [OF t0 this, of z]
  obtain r where "run_loop n z (Some t) (s\<lparr>running := True\<rparr>) = Some r" by blast
  then have "\<exists>r. run n z (Some t) s = Some r"
    by (cases r) (simp_all add: run_def)
  then show ?thesis by blast
qed

lemma run_loop_mono:
  "run_loop n z end_time s = Some r \<Longrightarrow> n \<le> m \<Longrightarrow> run_loop m z end_time s = Some r"
proof (induction n arbitrary: m s)
  case 0
  then show ?case by simp
next
  case (Suc n)
  then obtain m' where m: "m = Suc m'" "n \<le> m'" by (cases m) auto
  show ?case
  proof (cases "event_queue s \<noteq> [] \<and> running s")
    case True
    show ?thesis
    proof (cases "run_body z end_time s")
      case (Continue s1)
      then have "run_loop n z end_time s1 = Some r" using Suc.prems(1) True by simp
      then have "run_loop m' z end_time s1 = Some r" using m(2) by (rule Suc.IH)
      then show ?thesis using True Continue m(1) by simp
    next
      case (Break s1)
      then show ?thesis using Suc.prems(1) True m(1) by simp
    next
      case (Raise e)
      then show ?thesis using Suc.prems(1) True m(1) by simp
    qed
  next
    case False
    then show ?thesis using Suc.prems(1) m(1) by auto
  qed
qed

lemma run_mono:
  "run n z end_time s = Some r \<Longrightarrow> n \<le> m \<Longrightarrow> run m z end_time s = Some r"
proof -
  assume a: "run n z end_time s = Some r" and le: "n \<le> m"
  then obtain r' where r': "run_loop n z end_time (s\<lparr>running := True\<rparr>) = Some r'"
    by (auto simp: run_def split: option.splits)
  have "run_loop m z end_time (s\<lparr>running := True\<rparr>) = Some r'"
    using r' le by (rule run_loop_mono)
  then show ?thesis using a r' by (simp add: run_def)
qed

lemma campaign_loop_mono:
  "campaign_loop n z s dredgers target step t = Some r \<Longrightarrow> n \<le> m \<Longrightarrow>
   campaign_loop m z s dredgers target step t = Some r"
proof (induction n arbitrary: m s t)
  case 0
  then show ?case by simp
next
  case (Suc n)
  then obtain m' where m: "m = Suc m'" "n \<le> m'" by (cases m) auto
  from Suc.prems(1) obtain r1 where r1: "run n z (Some t) s = Some r1"
    by (auto split: option.splits)
  have r1': "run m' z (Some t) s = Some r1" using r1 m(2) by (rule run_mono)
  show ?case
  proof (cases r1)
    case (Inl e)
    then show ?thesis using Suc.prems(1) r1 r1' m(1) by auto
  next
    case (Inr s1)
    show ?thesis
    proof (cases "target \<le> total_material s1 dredgers \<or> max_simulation_time \<le> clock s1")
      case True
      then show ?thesis using Suc.prems(1) r1 r1' m(1) Inr by auto
    next
      case False
      then have "campaign_loop n z s1 dredgers target step (t + step) = Some r"
        using Suc.prems(1) r1 Inr by simp
      then have "campaign_loop m' z s1 dredgers target step (t + step) = Some r"
        using m(2) by (rule Suc.IH)
      then show ?thesis using False r1' m(1) Inr by simp
    qed
  qed
qed

section \<open>The campaign driver\<close>

lemma run_body_running:
  assumes ne: "event_queue s \<noteq> []" and r: "run_body z end_time s = Continue s'"
  shows "running s' = running s"
  using ne
proof (cases rule: run_body_cases [where end_time = end_time and z = z])
  case (handled e q v v' s2)
  then show ?thesis using r handle_event_frame [OF handled(4)] by auto
qed (use r in auto)

lemma run_loop_at_work:
  "vessel_at_work s \<Longrightarrow> running s \<Longrightarrow> run_loop n z end_time s = Some (Inr s') \<Longrightarrow>
   end_time = Some (clock s') \<and> vessel_at_work s'"
proof (induction n arbitrary: s)
  case 0
  then show ?case by simp
next
  case (Suc n)
  have ne: "event_queue s \<noteq> []" using Suc.prems(1) by (auto simp: vessel_at_work_iff)
  from ne show ?case
  proof (cases rule: run_body_cases [where end_time = end_time and z = z])
    case (beyond e q t)
    note p = heappop_facts [OF beyond(1)]
    have "set (heappush q e) = set (event_queue s)"
      using p(1) by (metis mset_heappush set_mset_mset)
    moreover have "s' = s\<lparr>event_queue := heappush q e, clock := t\<rparr>"
      using Suc.prems(2,3) ne beyond(5) by simp
    ultimately show ?thesis
      using Suc.prems(1) beyond(2) by (simp add: vessel_at_work_iff)
  next
    case (unknown e q)
    let ?s1 = "(after_pop s e q)\<lparr>printed := printed s @ [warning e]\<rparr>"
    have "vessel_at_work ?s1" using Suc.prems(1) unknown(4) by (rule run_body_at_work)
    moreover have "running ?s1" using Suc.prems(2) by simp
    moreover have "run_loop n z end_time ?s1 = Some (Inr s')"
      using Suc.prems(2,3) ne unknown(4) by simp
    ultimately show ?thesis by (rule Suc.IH)
  next
    case (handled e q v v' s2)
    let ?s1 = "s2\<lparr>entities := (entities s2)(entity_id e \<mapsto> v')\<rparr>"
    have "vessel_at_work ?s1" using Suc.prems(1) handled(5) by (rule run_body_at_work)
    moreover have "running ?s1"
      using Suc.prems(2) run_body_running [OF ne handled(5)] by simp
    moreover have "run_loop n z end_time ?s1 = Some (Inr s')"
      using Suc.prems(2,3) ne handled(5) by simp
    ultimately show ?thesis by (rule Suc.IH)
  next
    case (raised e q v err)
    then show ?thesis using Suc.prems(2,3) ne by simp
  qed
qed

lemma run_at_work:
  assumes w: "vessel_at_work s" and r: "run n z end_time s = Some (Inr s')"
  shows "end_time = Some (clock s') \<and> vessel_at_work s'"
proof -
  from r obtain s1 where s1: "run_loop n z end_time (s\<lparr>running := True\<rparr>) = Some (Inr s1)"
    and s': "s' = s1\<lparr>running := False\<rparr>"
    by (auto simp: run_def split: option.splits sum.splits)
  have "vessel_at_work (s\<lparr>running := True\<rparr>)" using w by (simp add: vessel_at_work_def)
  then have "end_time = Some (clock s1) \<and> vessel_at_work s1"
    using _ s1 by (rule run_loop_at_work) simp
  then show ?thesis by (simp add: s' vessel_at_work_def)
qed

lemma campaign_loop_raise:
  "run n z (Some t) s = Some (Inl e) \<Longrightarrow>
   campaign_loop (Suc n) z s dredgers target step t = Some (Inl e)"
  by simp

lemma campaign_loop_stop:
  "run n z (Some t) s = Some (Inr s1) \<Longrightarrow>
   target \<le> total_material s1 dredgers \<or> max_simulation_time \<le> clock s1 \<Longrightarrow>
   campaign_loop (Suc n) z s dredgers target step t = Some (Inr s1)"
  by simp

lemma campaign_loop_next:
  "run n z (Some t) s = Some (Inr s1) \<Longrightarrow>
   \<not> (target \<le> total_material s1 dredgers \<or> max_simulation_time \<le> clock s1) \<Longrightarrow>
   campaign_loop (Suc n) z s dredgers target step t =
   campaign_loop n z s1 dredgers target step (t + step)"
  by simp

lemma campaign_loop_returns:
  "vessel_at_work s \<Longrightarrow> 0 < step \<Longrightarrow> 0 < t \<Longrightarrow> max_simulation_time - t \<le> real k * step \<Longrightarrow>
   \<exists>n r. campaign_loop n z s dredgers target step t = Some r"
proof (induction k arbitrary: s t)
  case 0
  have "t \<noteq> 0" using 0(3) by simp
  from run_returns [OF this, of z s] obtain n1 r1 where r1: "run n1 z (Some t) s = Some r1"
    by blast
  show ?case
  proof (cases r1)
    case (Inl e)
    then have "campaign_loop (Suc n1) z s dredgers target step t = Some (Inl e)"
      using r1 by (intro campaign_loop_raise) simp
    then show ?thesis by blast
  next
    case (Inr s1)
    then have r: "run n1 z (Some t) s = Some (Inr s1)" using r1 by simp
    have "clock s1 = t" using run_at_work [OF 0(1) r] by simp
    then have "max_simulation_time \<le> clock s1" using 0(4) by simp
    then have "campaign_loop (Suc n1) z s dredgers target step t = Some (Inr s1)"
      using r by (intro campaign_loop_stop) simp_all
    then show ?thesis by blast
  qed
next
  case (Suc k)
  have "t \<noteq> 0" using Suc.prems(3) by simp
  from run_returns [OF this, of z s] obtain n1 r1 where r1: "run n1 z (Some t) s = Some r1"
    by blast
  show ?case
  proof (cases r1)
    case (Inl e)
    then have "campaign_loop (Suc n1) z s dredgers target step t = Some (Inl e)"
      using r1 by (intro campaign_loop_raise) simp
    then show ?thesis by blast
  next
    case (Inr s1)
    then have r: "run n1 z (Some t) s = Some (Inr s1)" using r1 by simp
    show ?thesis
    proof (cases "target \<le> total_material s1 dredgers \<or> max_simulation_time \<le> clock s1")
      case True
      with r have "campaign_loop (Suc n1) z s dredgers target step t = Some (Inr s1)"
        by (rule campaign_loop_stop)
      then show ?thesis by blast
    next
      case False
      have w1: "vessel_at_work s1" using run_at_work [OF Suc.prems(1) r] by simp
      have b: "max_simulation_time - (t + step) \<le> real k * step"
        using Suc.prems(4) by (simp add: algebra_simps)
      have p: "0 < t + step" using Suc.prems(2,3) by simp
      from Suc.IH [OF w1 Suc.prems(2) p b] obtain n2 r2
        where r2: "campaign_loop n2 z s1 dredgers target step (t + step) = Some r2"
        by blast
      have m1: "run (max n1 n2) z (Some t) s = Some (Inr s1)"
        using r by (rule run_mono) simp
      have m2: "campaign_loop (max n1 n2) z s1 dredgers target step (t + step) = Some r2"
        using r2 by (rule campaign_loop_mono) simp
      have "campaign_loop (Suc (max n1 n2)) z s dredgers target step t = Some r2"
        unfolding campaign_loop_next [OF m1 False] by (rule m2)
      then show ?thesis by blast
    qed
  qed
qed

lemma step_h_positive: "1 / 4 \<le> step_h cycle_times"
  by (simp add: step_h_def)

lemma fleet_loop_at_work:
  "fleet_loop fleet s d c = Inr (s', d', c') \<Longrightarrow> segment_manager s = None \<Longrightarrow>
   fleet \<noteq> [] \<or> vessel_at_work s \<Longrightarrow> vessel_at_work s'"
proof (induction fleet arbitrary: s d c)
  case Nil
  then show ?case by simp
next
  case (Cons a rest)
  obtain l cfg where a: "a = (l, cfg)" by (cases a)
  let ?s2 = "start_work (TSHD_init l cfg) (s\<lparr>entities := (entities s)(l \<mapsto> TSHD_init l cfg)\<rparr>)"
  from Cons.prems(1) obtain d1 c1 where rest: "fleet_loop rest ?s2 d1 c1 = Inr (s', d', c')"
    by (auto simp: a bind_err_def fdiv_def Let_def TSHD_init_def split: if_splits)
  have "segment_manager ?s2 = None" using Cons.prems(2) by (simp add: start_work_def)
  moreover have "vessel_at_work ?s2"
    using Cons.prems(2)
    by (auto simp: vessel_at_work_iff start_work_def scheduled_count_def TSHD_init_def)
  ultimately show ?case using Cons.IH [OF rest] by blast
qed

lemma fleet_loop_lists:
  "fleet_loop fleet s d c = Inr (s', d', c') \<Longrightarrow>
   d' = d @ map fst fleet \<and> c' = c @ map (\<lambda>x. mean_cycle (snd x)) fleet"
proof (induction fleet arbitrary: s d c)
  case Nil
  then show ?case by simp
next
  case (Cons a rest)
  obtain l cfg where a: "a = (l, cfg)" by (cases a)
  from Cons.prems obtain s2 where
    rest: "fleet_loop rest s2 (d @ [l]) (c @ [mean_cycle cfg]) = Inr (s', d', c')"
    by (auto simp: a bind_err_def fdiv_def Let_def mean_cycle_def split: if_splits)
  from Cons.IH [OF rest] show ?case by (simp add: a)
qed

lemma horizons_Suc: "horizons t step (Suc m) = t # horizons (t + step) step m"
proof -
  have "[0..<Suc m] = 0 # map Suc [0..<m]"
    by (simp add: upt_conv_Cons map_Suc_upt del: upt_Suc)
  then show ?thesis
    unfolding horizons_def by (simp add: algebra_simps comp_def del: upt_Suc)
qed

lemma run_stages_mono:
  "run_stages n z ts s = Some r \<Longrightarrow> n \<le> m \<Longrightarrow> run_stages m z ts s = Some r"
proof (induction ts arbitrary: s)
  case Nil
  then show ?case by simp
next
  case (Cons t ts)
  from Cons.prems(1) obtain r1 where r1: "run n z (Some t) s = Some r1"
    by (auto split: option.splits)
  have r1': "run m z (Some t) s = Some r1" using r1 Cons.prems(2) by (rule run_mono)
  show ?case
  proof (cases r1)
    case (Inl e)
    then show ?thesis using Cons.prems(1) r1 r1' by auto
  next
    case (Inr s1)
    then have "run_stages n z ts s1 = Some r" using Cons.prems(1) r1 by simp
    then have "run_stages m z ts s1 = Some r" using Cons.prems(2) by (rule Cons.IH)
    then show ?thesis using r1' Inr by simp
  qed
qed

lemma campaign_loop_rounds:
  "campaign_loop n z s dredgers target step t = Some (Inr s') \<Longrightarrow>
   \<exists>k. run_stages n z (horizons t step (Suc k)) s = Some (Inr s') \<and>
       campaign_done s' dredgers target \<and>
       (\<forall>j<k. \<exists>sj. run_stages n z (horizons t step (Suc j)) s = Some (Inr sj) \<and>
                 \<not> campaign_done sj dredgers target)"
proof (induction n arbitrary: s t)
  case 0
  then show ?case by simp
next
  case (Suc n)
  from Suc.prems obtain s1 where r1: "run n z (Some t) s = Some (Inr s1)"
    by (auto split: option.splits sum.splits)
  have r1': "run (Suc n) z (Some t) s = Some (Inr s1)"
    using r1 by (rule run_mono) simp
  have one: "run_stages (Suc n) z (horizons t step (Suc 0)) s = Some (Inr s1)"
    using r1' by (simp add: horizons_def)
  show ?case
  proof (cases "campaign_done s1 dredgers target")
    case True
    then have "s' = s1" using Suc.prems r1 by (auto simp: campaign_done_def)
    then show ?thesis using True one by (intro exI [of _ 0]) simp
  next
    case False
    then have "campaign_loop n z s1 dredgers target step (t + step) = Some (Inr s')"
      using Suc.prems r1 by (auto simp: campaign_done_def)
    from Suc.IH [OF this] obtain k where
      k: "run_stages n z (horizons (t + step) step (Suc k)) s1 = Some (Inr s')"
         "campaign_done s' dredgers target"
         "\<forall>j<k. \<exists>sj. run_stages n z (horizons (t + step) step (Suc j)) s1 = Some (Inr sj) \<and>
                 \<not> campaign_done sj dredgers target"
      by blast
    have shift: "run_stages (Suc n) z (horizons t step (Suc (Suc j))) s = Some r"
      if "run_stages n z (horizons (t + step) step (Suc j)) s1 = Some r" for j r
    proof -
      have "run_stages (Suc n) z (horizons (t + step) step (Suc j)) s1 = Some r"
        using that by (rule run_stages_mono) simp
      then show ?thesis
        using r1' by (simp add: horizons_Suc [of t])
    qed
    have "\<exists>sj. run_stages (Suc n) z (horizons t step (Suc j)) s = Some (Inr sj) \<and>
                 \<not> campaign_done sj dredgers target" if "j < Suc k" for j
    proof (cases j)
      case 0
      then show ?thesis using one False by blast
    next
      case (Suc j')
      then have "j' < k" using that by simp
      with k(3) obtain sj where
        "run_stages n z (horizons (t + step) step (Suc j')) s1 = Some (Inr sj)"
        "\<not> campaign_done sj dredgers target"
        by blast
      then show ?thesis using shift Suc by blast
    qed
    then show ?thesis using shift [OF k(1)] k(2) by (intro exI [of _ "Suc k"]) simp
  qed
qed




end
